theory Spec2Isabelle
  imports Main "HOL-Library.Sublist"
begin

section \<open>Grid navigation and backtracking planner of real_time_map_and_nav_pynn.py\<close>

text \<open>
  The planner is the body of \<open>run_navigation_loop\<close> together with the two pure helpers
  \<open>manhattan_nearest_cell_to_target\<close> and \<open>direction_from_cells\<close>. Python integers are
  unbounded, so every number is an \<open>int\<close>. Exceptions are values of \<open>error\<close>; a function
  that can raise returns \<open>error + 'a\<close> with \<open>Inl\<close> for the exception.
\<close>

subsection \<open>Data model\<close>

datatype error = IndexError | ValueError | ZeroDivisionError

type_synonym cell = "int \<times> int"

text \<open>A numpy array of shape (rows, columns), stored row by row.\<close>

type_synonym grid = "int list list"

text \<open>The module-level experiment parameters (lines 53-98).\<close>

record config =
  xlength :: int
  ylength :: int
  xinit :: int
  yinit :: int
  xend :: int
  yend :: int
  obstacles :: "int list"

text \<open>Line 111.\<close>

definition maxRepeatedIteration :: int where
  "maxRepeatedIteration = 3"

text \<open>
  The local variables of \<open>run_navigation_loop\<close> that survive an iteration (lines 243-254),
  the output map \<open>final_map_state\<close>, and \<open>commands\<close>: the command of every committed move,
  in the order in which line 340 files it into \<open>match_spike_times[command]\<close>.
\<close>

record nav_state =
  cellX :: int
  cellY :: int
  lastCellX :: int
  lastCellY :: int
  robotPath :: "int list"
  backtracking :: bool
  nearestCell :: cell
  iterationsRepeated :: int
  finish :: bool
  unachievable :: bool
  final_map_state :: grid
  commands :: "int list"

subsection \<open>numpy indexing\<close>

text \<open>
  An index into an axis of length \<open>n\<close> is valid from \<open>-n\<close> to \<open>n - 1\<close>; a negative one counts
  from the end; anything else raises IndexError.
\<close>

definition np_index :: "nat \<Rightarrow> int \<Rightarrow> nat option" where
  "np_index n i =
     (if 0 \<le> i \<and> i < int n then Some (nat i)
      else if - int n \<le> i \<and> i < 0 then Some (nat (i + int n))
      else None)"

definition np_get :: "grid \<Rightarrow> int \<Rightarrow> int \<Rightarrow> error + int" where
  "np_get m y x =
     (case np_index (length m) y of
        None \<Rightarrow> Inl IndexError
      | Some r \<Rightarrow>
          (case np_index (length (m ! r)) x of
             None \<Rightarrow> Inl IndexError
           | Some c \<Rightarrow> Inr (m ! r ! c)))"

definition np_set :: "grid \<Rightarrow> int \<Rightarrow> int \<Rightarrow> int \<Rightarrow> error + grid" where
  "np_set m y x v =
     (case np_index (length m) y of
        None \<Rightarrow> Inl IndexError
      | Some r \<Rightarrow>
          (case np_index (length (m ! r)) x of
             None \<Rightarrow> Inl IndexError
           | Some c \<Rightarrow> Inr (m[r := (m ! r)[c := v]])))"

text \<open>\<open>np.zeros((h, w), dtype=int)\<close>; a negative dimension raises ValueError.\<close>

definition np_zeros :: "int \<Rightarrow> int \<Rightarrow> error + grid" where
  "np_zeros h w =
     (if h < 0 \<or> w < 0 then Inl ValueError
      else Inr (replicate (nat h) (replicate (nat w) 0)))"

subsection \<open>The two cell representations\<close>

text \<open>
  The 1-based linear index of lines 247, 283 and 322, and its decoding in lines 312-313.
  Python's \<open>%\<close> and \<open>//\<close> round towards minus infinity, as \<open>mod\<close> and \<open>div\<close> on \<open>int\<close> do.
\<close>

definition linear_index :: "config \<Rightarrow> int \<Rightarrow> int \<Rightarrow> int" where
  "linear_index cfg x y = y * xlength cfg + x + 1"

definition cell_of_index :: "config \<Rightarrow> int \<Rightarrow> cell" where
  "cell_of_index cfg i = ((i - 1) mod xlength cfg, (i - 1) div xlength cfg)"

subsection \<open>manhattan_nearest_cell_to_target (lines 118-130)\<close>

definition manhattan :: "cell \<Rightarrow> cell \<Rightarrow> int" where
  "manhattan target c = \<bar>fst c - fst target\<bar> + \<bar>snd c - snd target\<bar>"

text \<open>The for loop; the accumulator is \<open>(nearest_cells, nearest_distance)\<close>.\<close>

fun nearest_scan :: "cell \<Rightarrow> cell list \<Rightarrow> cell list \<times> int \<Rightarrow> cell list" where
  "nearest_scan target [] (nearest_cells, nearest_distance) = nearest_cells"
| "nearest_scan target (c # cells) (nearest_cells, nearest_distance) =
     (let distance = manhattan target c in
      if nearest_distance = - 1 \<or> distance \<le> nearest_distance then
        (if distance = nearest_distance
         then nearest_scan target cells (nearest_cells @ [c], distance)
         else nearest_scan target cells ([c], distance))
      else nearest_scan target cells (nearest_cells, nearest_distance))"

definition manhattan_nearest_cell_to_target :: "cell \<Rightarrow> cell list \<Rightarrow> cell list" where
  "manhattan_nearest_cell_to_target target cells = nearest_scan target cells ([], - 1)"

subsection \<open>direction_from_cells (lines 141-161)\<close>

definition direction_from_cells :: "cell \<Rightarrow> cell \<Rightarrow> error + int" where
  "direction_from_cells last_cell next_cell =
     (case last_cell of (cx, cy) \<Rightarrow>
      case next_cell of (nx, ny) \<Rightarrow>
        if ny = cy - 1 \<and> nx = cx then Inr 0
        else if nx = cx - 1 \<and> ny = cy then Inr 1
        else if nx = cx + 1 \<and> ny = cy then Inr 2
        else if ny = cy + 1 \<and> nx = cx then Inr 3
        else Inl ValueError)"

subsection \<open>The loop body of run_navigation_loop\<close>

text \<open>
  Lines 271-281: the neighbour of the current cell in direction \<open>d\<close>, or \<open>None\<close> where
  the source reaches \<open>continue\<close>.
\<close>

definition neighbour :: "config \<Rightarrow> int \<Rightarrow> int \<Rightarrow> int \<Rightarrow> cell option" where
  "neighbour cfg cx cy d =
     (if d = 0 \<and> cy - 1 \<ge> 0 then Some (cx, cy - 1)
      else if d = 1 \<and> cx - 1 \<ge> 0 then Some (cx - 1, cy)
      else if d = 2 \<and> cx + 1 < xlength cfg then Some (cx + 1, cy)
      else if d = 3 \<and> cy + 1 < ylength cfg then Some (cx, cy + 1)
      else None)"

text \<open>
  Lines 270-291, the loop over the directions. The accumulator is
  \<open>(freeCells, obstacleCells, final_map_state)\<close>; the state \<open>s\<close> is only read.
\<close>

fun scan_directions ::
  "config \<Rightarrow> nav_state \<Rightarrow> int list \<Rightarrow> cell list \<times> cell list \<times> grid
     \<Rightarrow> error + cell list \<times> cell list \<times> grid" where
  "scan_directions cfg s [] acc = Inr acc"
| "scan_directions cfg s (d # ds) (freeCells, obstacleCells, m) =
     (case neighbour cfg (cellX s) (cellY s) d of
        None \<Rightarrow> scan_directions cfg s ds (freeCells, obstacleCells, m)
      | Some (nx, ny) \<Rightarrow>
          if linear_index cfg nx ny \<in> set (obstacles cfg) then
            (case np_set m ny nx 6 of
               Inl e \<Rightarrow> Inl e
             | Inr m' \<Rightarrow> scan_directions cfg s ds (freeCells, obstacleCells @ [(nx, ny)], m'))
          else if linear_index cfg nx ny \<notin> set (robotPath s) \<and> \<not> backtracking s then
            (case np_get m ny nx of
               Inl e \<Rightarrow> Inl e
             | Inr v \<Rightarrow>
                 if v = 0 then
                   (case np_set m ny nx 5 of
                      Inl e \<Rightarrow> Inl e
                    | Inr m' \<Rightarrow> scan_directions cfg s ds (freeCells @ [(nx, ny)], obstacleCells, m'))
                 else scan_directions cfg s ds (freeCells @ [(nx, ny)], obstacleCells, m))
          else scan_directions cfg s ds (freeCells, obstacleCells, m))"

definition scan_neighbours ::
  "config \<Rightarrow> nav_state \<Rightarrow> error + cell list \<times> cell list \<times> grid" where
  "scan_neighbours cfg s = scan_directions cfg s [0, 1, 2, 3] ([], [], final_map_state s)"

text \<open>Lines 299-300 and 333-334: mark a cell as a path step unless it holds 1 or 2.\<close>

definition mark_path_step :: "grid \<Rightarrow> int \<Rightarrow> int \<Rightarrow> error + grid" where
  "mark_path_step m y x =
     (case np_get m y x of
        Inl e \<Rightarrow> Inl e
      | Inr v \<Rightarrow> if v \<noteq> 1 \<and> v \<noteq> 2 then np_set m y x 3 else Inr m)"

text \<open>
  Lines 318-358, run after either branch has fixed \<open>(nextCellX, nextCellY)\<close>: the command,
  the move, the append to the path, the crossroad mark, the target check, the command's
  record and the safety cap.
\<close>

definition commit_move :: "config \<Rightarrow> nav_state \<Rightarrow> cell list \<Rightarrow> cell \<Rightarrow> error + nav_state" where
  "commit_move cfg s freeCells next_cell =
     (case next_cell of (nextCellX, nextCellY) \<Rightarrow>
      case direction_from_cells (cellX s, cellY s) (nextCellX, nextCellY) of
        Inl e \<Rightarrow> Inl e
      | Inr command \<Rightarrow>
          (case (if length freeCells > 1
                 then np_set (final_map_state s) (cellY s) (cellX s) 4
                 else Inr (final_map_state s)) of
             Inl e \<Rightarrow> Inl e
           | Inr m1 \<Rightarrow>
               (case (if nextCellX = xend cfg \<and> nextCellY = yend cfg
                      then np_set m1 nextCellY nextCellX 2
                      else mark_path_step m1 nextCellY nextCellX) of
                  Inl e \<Rightarrow> Inl e
                | Inr m2 \<Rightarrow>
                    Inr (s\<lparr>lastCellX := cellX s, lastCellY := cellY s,
                           cellX := nextCellX, cellY := nextCellY,
                           robotPath := robotPath s @ [linear_index cfg nextCellX nextCellY],
                           final_map_state := m2,
                           finish := (finish s \<or> (nextCellX = xend cfg \<and> nextCellY = yend cfg)),
                           commands := commands s @ [command],
                           iterationsRepeated := iterationsRepeated s + 1,
                           unachievable := (unachievable s \<or> iterationsRepeated s + 1 \<ge> 200)\<rparr>))))"

text \<open>Lines 294-300: the branch taken when \<open>freeCells\<close> is not empty.\<close>

definition forward_branch :: "config \<Rightarrow> nav_state \<Rightarrow> cell list \<Rightarrow> error + nav_state" where
  "forward_branch cfg s freeCells =
     (let nearestCells = manhattan_nearest_cell_to_target (xend cfg, yend cfg) freeCells in
      if nearestCells = [] then Inl IndexError
      else
        (case mark_path_step (final_map_state s) (cellY s) (cellX s) of
           Inl e \<Rightarrow> Inl e
         | Inr m \<Rightarrow>
             commit_move cfg (s\<lparr>nearestCell := last nearestCells, final_map_state := m\<rparr>)
               freeCells (last nearestCells)))"

text \<open>
  Lines 301-316: the dead-end branch. Both \<open>break\<close>s leave the loop with \<open>unachievable\<close>
  set and everything after line 316 skipped.
\<close>

definition dead_end_branch :: "config \<Rightarrow> nav_state \<Rightarrow> cell list \<Rightarrow> error + nav_state" where
  "dead_end_branch cfg s freeCells =
     (let s1 = s\<lparr>iterationsRepeated := iterationsRepeated s + 1\<rparr> in
      if iterationsRepeated s1 \<ge> maxRepeatedIteration then Inr (s1\<lparr>unachievable := True\<rparr>)
      else if length (robotPath s1) > 1 then
        (let popped = butlast (robotPath s1); last_id = last popped in
         if xlength cfg = 0 then Inl ZeroDivisionError
         else commit_move cfg (s1\<lparr>backtracking := True, robotPath := popped\<rparr>)
                freeCells (cell_of_index cfg last_id))
      else Inr (s1\<lparr>backtracking := True, unachievable := True\<rparr>))"

text \<open>One iteration of the while loop (lines 266-358).\<close>

definition nav_step :: "config \<Rightarrow> nav_state \<Rightarrow> error + nav_state" where
  "nav_step cfg s =
     (case scan_neighbours cfg s of
        Inl e \<Rightarrow> Inl e
      | Inr (freeCells, obstacleCells, m) \<Rightarrow>
          if freeCells \<noteq> []
          then forward_branch cfg (s\<lparr>final_map_state := m\<rparr>) freeCells
          else dead_end_branch cfg (s\<lparr>final_map_state := m\<rparr>) freeCells)"

subsection \<open>Initialisation (lines 235-254)\<close>

definition initial_map_state :: "config \<Rightarrow> error + grid" where
  "initial_map_state cfg =
     (case np_zeros (ylength cfg) (xlength cfg) of
        Inl e \<Rightarrow> Inl e
      | Inr m0 \<Rightarrow>
          (case np_set m0 (yinit cfg) (xinit cfg) 1 of
             Inl e \<Rightarrow> Inl e
           | Inr m1 \<Rightarrow> np_set m1 (yend cfg) (xend cfg) 2))"

definition init_state :: "config \<Rightarrow> error + nav_state" where
  "init_state cfg =
     (case initial_map_state cfg of
        Inl e \<Rightarrow> Inl e
      | Inr m \<Rightarrow>
          Inr \<lparr>cellX = xinit cfg, cellY = yinit cfg,
               lastCellX = xinit cfg, lastCellY = yinit cfg,
               robotPath = [linear_index cfg (xinit cfg) (yinit cfg)],
               backtracking = False,
               nearestCell = (xinit cfg, yinit cfg),
               iterationsRepeated = 0,
               finish = False,
               unachievable = False,
               final_map_state = m,
               commands = []\<rparr>)"

subsection \<open>The while loop (line 265)\<close>

definition terminal :: "nav_state \<Rightarrow> bool" where
  "terminal s = (finish s \<or> unachievable s)"

text \<open>
  The state after at most \<open>n\<close> iterations: the loop body runs while the guard
  \<open>not finish and not unachievable\<close> holds, and an exception ends the run.
\<close>

fun nav_iter :: "nat \<Rightarrow> config \<Rightarrow> nav_state \<Rightarrow> error + nav_state" where
  "nav_iter 0 cfg s = Inr s"
| "nav_iter (Suc n) cfg s =
     (if terminal s then Inr s
      else case nav_step cfg s of Inl e \<Rightarrow> Inl e | Inr s' \<Rightarrow> nav_iter n cfg s')"

subsection \<open>What one iteration changes\<close>

lemma nav_step_scan:
  assumes "nav_step cfg s = Inr s'"
  obtains fc oc m where "scan_neighbours cfg s = Inr (fc, oc, m)"
  using assms by (auto simp: nav_step_def split: sum.splits)

lemma nav_step_forward:
  assumes "scan_neighbours cfg s = Inr (fc, oc, m)" and "fc \<noteq> []"
    and "nav_step cfg s = Inr s'"
    and "t = last (manhattan_nearest_cell_to_target (xend cfg, yend cfg) fc)"
  shows "cellX s' = fst t \<and> cellY s' = snd t \<and> lastCellX s' = cellX s \<and> lastCellY s' = cellY s
       \<and> robotPath s' = robotPath s @ [linear_index cfg (fst t) (snd t)]
       \<and> backtracking s' = backtracking s
       \<and> nearestCell s' = t
       \<and> iterationsRepeated s' = iterationsRepeated s + 1
       \<and> finish s' = (finish s \<or> (fst t = xend cfg \<and> snd t = yend cfg))
       \<and> unachievable s' = (unachievable s \<or> 200 \<le> iterationsRepeated s + 1)
       \<and> (\<exists>c. direction_from_cells (cellX s, cellY s) t = Inr c
              \<and> commands s' = commands s @ [c])"
  using assms
  by (auto simp: nav_step_def forward_branch_def commit_move_def Let_def
           split: sum.splits if_splits prod.splits)

lemma nav_step_dead_end:
  assumes "scan_neighbours cfg s = Inr ([], oc, m)"
    and "nav_step cfg s = Inr s'"
    and "t = cell_of_index cfg (last (butlast (robotPath s)))"
  shows "((maxRepeatedIteration \<le> iterationsRepeated s + 1 \<or> length (robotPath s) \<le> 1)
            \<and> unachievable s' \<and> robotPath s' = robotPath s \<and> commands s' = commands s
            \<and> cellX s' = cellX s \<and> cellY s' = cellY s
            \<and> lastCellX s' = lastCellX s \<and> lastCellY s' = lastCellY s
            \<and> iterationsRepeated s' = iterationsRepeated s + 1
            \<and> finish s' = finish s
            \<and> backtracking s' = (backtracking s \<or> iterationsRepeated s + 1 < maxRepeatedIteration))
       \<or> (iterationsRepeated s + 1 < maxRepeatedIteration \<and> 1 < length (robotPath s)
            \<and> xlength cfg \<noteq> 0
            \<and> cellX s' = fst t \<and> cellY s' = snd t
            \<and> lastCellX s' = cellX s \<and> lastCellY s' = cellY s
            \<and> robotPath s' = butlast (robotPath s) @ [linear_index cfg (fst t) (snd t)]
            \<and> backtracking s'
            \<and> iterationsRepeated s' = iterationsRepeated s + 2
            \<and> finish s' = (finish s \<or> (fst t = xend cfg \<and> snd t = yend cfg))
            \<and> unachievable s' = (unachievable s \<or> 200 \<le> iterationsRepeated s + 2)
            \<and> (\<exists>c. direction_from_cells (cellX s, cellY s) t = Inr c
                   \<and> commands s' = commands s @ [c]))"
  using assms
  by (auto simp: nav_step_def dead_end_branch_def commit_move_def Let_def
           split: sum.splits if_splits prod.splits)

lemma nav_step_progress:
  assumes "nav_step cfg s = Inr s'"
  shows "unachievable s' \<or> (iterationsRepeated s < iterationsRepeated s' \<and> iterationsRepeated s' < 200)"
proof -
  from assms obtain fc oc m where sc: "scan_neighbours cfg s = Inr (fc, oc, m)"
    by (rule nav_step_scan)
  show ?thesis
  proof (cases "fc = []")
    case False
    from nav_step_forward[OF sc False assms refl] show ?thesis by auto
  next
    case True
    with sc have "scan_neighbours cfg s = Inr ([], oc, m)" by simp
    from nav_step_dead_end[OF this assms refl] show ?thesis by auto
  qed
qed

text \<open>
  The loop itself. Every iteration that does not end the run raises \<open>iterationsRepeated\<close>
  and leaves it below 200, which is the termination measure.
\<close>

function nav_loop :: "config \<Rightarrow> nav_state \<Rightarrow> error + nav_state" where
  "nav_loop cfg s =
     (if terminal s then Inr s
      else case nav_step cfg s of Inl e \<Rightarrow> Inl e | Inr s' \<Rightarrow> nav_loop cfg s')"
  by pat_completeness auto
termination
proof (relation "measure (\<lambda>(cfg, s). if terminal s then 0 else 1 + nat (200 - iterationsRepeated s))")
  show "wf (measure (\<lambda>(cfg, s). if terminal s then 0 else 1 + nat (200 - iterationsRepeated s)))"
    by simp
next
  fix cfg s s'
  assume "\<not> terminal s" and "nav_step cfg s = Inr s'"
  from nav_step_progress[OF this(2)] \<open>\<not> terminal s\<close>
  show "((cfg, s'), (cfg, s)) \<in> measure (\<lambda>(cfg, s). if terminal s then 0 else 1 + nat (200 - iterationsRepeated s))"
    by (auto simp: terminal_def)
qed

subsection \<open>The run\<close>

definition run_navigation_loop :: "config \<Rightarrow> error + nav_state" where
  "run_navigation_loop cfg =
     (case init_state cfg of Inl e \<Rightarrow> Inl e | Inr s \<Rightarrow> nav_loop cfg s)"

text \<open>The state of a run at the iteration boundary after at most \<open>n\<close> iterations.\<close>

definition run_steps :: "nat \<Rightarrow> config \<Rightarrow> error + nav_state" where
  "run_steps n cfg =
     (case init_state cfg of Inl e \<Rightarrow> Inl e | Inr s \<Rightarrow> nav_iter n cfg s)"

subsection \<open>Vocabulary of the properties\<close>

definition in_bounds :: "config \<Rightarrow> int \<Rightarrow> int \<Rightarrow> bool" where
  "in_bounds cfg x y = (0 \<le> x \<and> x < xlength cfg \<and> 0 \<le> y \<and> y < ylength cfg)"

text \<open>Positive grid dimensions, start and end inside the grid.\<close>

definition valid_config :: "config \<Rightarrow> bool" where
  "valid_config cfg =
     (0 < xlength cfg \<and> 0 < ylength cfg
      \<and> in_bounds cfg (xinit cfg) (yinit cfg) \<and> in_bounds cfg (xend cfg) (yend cfg))"

text \<open>The neighbours of the current cell in scan order: Up, Left, Right, Down.\<close>

definition scan_order :: "config \<Rightarrow> nav_state \<Rightarrow> cell list" where
  "scan_order cfg s = List.map_filter (neighbour cfg (cellX s) (cellY s)) [0, 1, 2, 3]"

text \<open>The test of lines 284 and 287 that makes a neighbour free.\<close>

definition is_free :: "config \<Rightarrow> nav_state \<Rightarrow> cell \<Rightarrow> bool" where
  "is_free cfg s c =
     (linear_index cfg (fst c) (snd c) \<notin> set (obstacles cfg)
      \<and> linear_index cfg (fst c) (snd c) \<notin> set (robotPath s)
      \<and> \<not> backtracking s)"

text \<open>An iteration detects a dead end when its scan leaves \<open>freeCells\<close> empty (line 301).\<close>

definition dead_end :: "config \<Rightarrow> nav_state \<Rightarrow> bool" where
  "dead_end cfg s =
     (case scan_neighbours cfg s of Inl e \<Rightarrow> False | Inr (fc, oc, m) \<Rightarrow> fc = [])"

text \<open>The number of dead-end detections in the first \<open>n\<close> iterations from \<open>s\<close>.\<close>

fun dead_end_detections :: "nat \<Rightarrow> config \<Rightarrow> nav_state \<Rightarrow> nat" where
  "dead_end_detections 0 cfg s = 0"
| "dead_end_detections (Suc n) cfg s =
     (if terminal s then 0
      else (if dead_end cfg s then 1 else 0)
           + (case nav_step cfg s of Inl e \<Rightarrow> 0 | Inr s' \<Rightarrow> dead_end_detections n cfg s'))"

text \<open>The output map keeps the shape \<open>(ylength, xlength)\<close> it is created with.\<close>

definition grid_dims :: "config \<Rightarrow> grid \<Rightarrow> bool" where
  "grid_dims cfg m = (map length m = replicate (nat (ylength cfg)) (nat (xlength cfg)))"

text \<open>Two cells are neighbours in one of the four directions.\<close>

definition adjacent :: "cell \<Rightarrow> cell \<Rightarrow> bool" where
  "adjacent a b = (\<bar>fst a - fst b\<bar> + \<bar>snd a - snd b\<bar> = 1)"

text \<open>
  What holds at every iteration boundary of a run on a valid configuration. While the
  navigator is not backtracking, the entry below the top of the path is the previous
  cell, a neighbour of the current one; once it is backtracking, the counter is at least
  2, so the next dead end ends the run before any further pop.
\<close>

definition nav_inv :: "config \<Rightarrow> nav_state \<Rightarrow> bool" where
  "nav_inv cfg s =
     (in_bounds cfg (cellX s) (cellY s)
      \<and> grid_dims cfg (final_map_state s)
      \<and> robotPath s \<noteq> []
      \<and> last (robotPath s) = linear_index cfg (cellX s) (cellY s)
      \<and> 0 \<le> iterationsRepeated s
      \<and> (iterationsRepeated s < 200 \<or> unachievable s)
      \<and> (backtracking s \<longrightarrow> 2 \<le> iterationsRepeated s \<or> unachievable s)
      \<and> (\<not> backtracking s \<and> 1 < length (robotPath s) \<longrightarrow>
            last (butlast (robotPath s)) = linear_index cfg (lastCellX s) (lastCellY s)
            \<and> in_bounds cfg (lastCellX s) (lastCellY s)
            \<and> adjacent (cellX s, cellY s) (lastCellX s, lastCellY s))
      \<and> (finish s \<longrightarrow> cellX s = xend cfg \<and> cellY s = yend cfg))"

subsection \<open>Linear indices\<close>

lemma cell_of_linear_index:
  assumes "0 \<le> x" and "x < xlength cfg"
  shows "cell_of_index cfg (linear_index cfg x y) = (x, y)"
  using assms by (simp add: cell_of_index_def linear_index_def)

lemma linear_index_of_cell:
  "linear_index cfg (fst (cell_of_index cfg i)) (snd (cell_of_index cfg i)) = i"
  by (simp add: cell_of_index_def linear_index_def)

subsection \<open>The nearest cells\<close>

lemma manhattan_nonneg: "0 \<le> manhattan t c"
  by (simp add: manhattan_def)

lemma nearest_scan_step:
  assumes "seen \<noteq> []"
  shows "nearest_scan t cells
           (filter (\<lambda>c. manhattan t c = Min (manhattan t ` set seen)) seen,
            Min (manhattan t ` set seen))
         = filter (\<lambda>c. manhattan t c = Min (manhattan t ` set (seen @ cells))) (seen @ cells)"
  using assms
proof (induction cells arbitrary: seen)
  case Nil
  then show ?case by simp
next
  case (Cons c cells)
  let ?D = "manhattan t"
  let ?nd = "Min (?D ` set seen)"
  have fin: "finite (?D ` set seen)" and ne: "?D ` set seen \<noteq> {}"
    using Cons.prems by auto
  have nd_nonneg: "0 \<le> ?nd"
    using fin ne by (simp add: manhattan_nonneg)
  have min_ins: "Min (insert (?D c) (?D ` set seen)) = min (?D c) ?nd"
    using fin ne by simp
  have min_ext: "Min (?D ` set (seen @ [c])) = min (?D c) ?nd"
    using min_ins by simp
  have le_all: "\<And>x. x \<in> set seen \<Longrightarrow> ?nd \<le> ?D x"
    using fin by simp
  have acc: "(if ?nd = - 1 \<or> ?D c \<le> ?nd
              then (if ?D c = ?nd
                    then (filter (\<lambda>x. ?D x = ?nd) seen @ [c], ?D c)
                    else ([c], ?D c))
              else (filter (\<lambda>x. ?D x = ?nd) seen, ?nd))
             = (filter (\<lambda>x. ?D x = Min (?D ` set (seen @ [c]))) (seen @ [c]),
                Min (?D ` set (seen @ [c])))"
  proof (cases "?D c < ?nd")
    case True
    have "\<forall>x\<in>set seen. ?D x \<noteq> ?D c"
    proof
      fix x assume "x \<in> set seen"
      from le_all[OF this] True show "?D x \<noteq> ?D c" by linarith
    qed
    then have "filter (\<lambda>x. ?D x = ?D c) seen = []"
      by (simp add: filter_empty_conv)
    with True nd_nonneg show ?thesis
      by (simp add: min_ins min_def)
  next
    case False
    show ?thesis
    proof (cases "?D c = ?nd")
      case True
      with min_ins have "Min (insert ?nd (?D ` set seen)) = ?nd" by simp
      with True show ?thesis by simp
    next
      case neq: False
      with False have "?nd < ?D c" by simp
      with nd_nonneg show ?thesis
        by (simp add: min_ins min_def)
    qed
  qed
  have "nearest_scan t (c # cells) (filter (\<lambda>x. ?D x = ?nd) seen, ?nd)
        = nearest_scan t cells
            (filter (\<lambda>x. ?D x = Min (?D ` set (seen @ [c]))) (seen @ [c]),
             Min (?D ` set (seen @ [c])))"
    unfolding acc[symmetric] by (simp add: Let_def)
  also have "\<dots> = filter (\<lambda>x. ?D x = Min (?D ` set ((seen @ [c]) @ cells))) ((seen @ [c]) @ cells)"
    by (rule Cons.IH) simp
  finally show ?case by simp
qed

lemma manhattan_nearest_filter:
  "manhattan_nearest_cell_to_target t cells
     = filter (\<lambda>c. manhattan t c = Min (manhattan t ` set cells)) cells"
proof (cases cells)
  case Nil
  then show ?thesis by (simp add: manhattan_nearest_cell_to_target_def)
next
  case (Cons c cs)
  have "manhattan_nearest_cell_to_target t cells = nearest_scan t cs ([c], manhattan t c)"
    by (simp add: manhattan_nearest_cell_to_target_def Cons Let_def)
  also have "\<dots> = nearest_scan t cs
      (filter (\<lambda>x. manhattan t x = Min (manhattan t ` set [c])) [c], Min (manhattan t ` set [c]))"
    by simp
  also have "\<dots> = filter (\<lambda>x. manhattan t x = Min (manhattan t ` set ([c] @ cs))) ([c] @ cs)"
    by (rule nearest_scan_step) simp
  finally show ?thesis by (simp add: Cons)
qed

lemma manhattan_nearest_nonempty:
  assumes "cells \<noteq> []"
  shows "manhattan_nearest_cell_to_target t cells \<noteq> []"
proof -
  have "Min (manhattan t ` set cells) \<in> manhattan t ` set cells"
    using assms by (intro Min_in) auto
  then obtain c where "c \<in> set cells" "manhattan t c = Min (manhattan t ` set cells)"
    by auto
  then show ?thesis
    by (auto simp: manhattan_nearest_filter filter_empty_conv)
qed

lemma nearest_last_in_set:
  assumes "cells \<noteq> []"
  shows "last (manhattan_nearest_cell_to_target t cells) \<in> set cells"
proof -
  have "last (manhattan_nearest_cell_to_target t cells)
          \<in> set (manhattan_nearest_cell_to_target t cells)"
    using manhattan_nearest_nonempty[OF assms] by (rule last_in_set)
  then show ?thesis by (simp add: manhattan_nearest_filter)
qed

subsection \<open>The neighbour scan\<close>

lemma scan_directions_free:
  assumes "scan_directions cfg s ds (f, ob, m) = Inr (f', ob', m')"
  shows "f' = f @ filter (is_free cfg s) (List.map_filter (neighbour cfg (cellX s) (cellY s)) ds)"
  using assms
proof (induction ds arbitrary: f ob m)
  case Nil
  then show ?case by simp
next
  case (Cons d ds)
  show ?case
  proof (cases "neighbour cfg (cellX s) (cellY s) d")
    case None
    with Cons show ?thesis by simp
  next
    case (Some c)
    obtain nx ny where c: "c = (nx, ny)" by (cases c)
    from Cons.prems Some c show ?thesis
      by (auto simp: is_free_def
               split: if_splits sum.splits dest!: Cons.IH)
  qed
qed

lemma scan_neighbours_free:
  assumes "scan_neighbours cfg s = Inr (fc, oc, m)"
  shows "fc = filter (is_free cfg s) (scan_order cfg s)"
proof -
  from assms have "scan_directions cfg s [0, 1, 2, 3] ([], [], final_map_state s) = Inr (fc, oc, m)"
    by (simp only: scan_neighbours_def)
  from scan_directions_free[OF this] show ?thesis
    by (simp only: scan_order_def append_Nil)
qed

subsection \<open>Lists\<close>

lemma last_filter_split:
  assumes "filter P xs \<noteq> []"
  shows "\<exists>pre post. xs = pre @ last (filter P xs) # post \<and> (\<forall>x\<in>set post. \<not> P x)"
  using assms
proof (induction xs rule: rev_induct)
  case Nil
  then show ?case by simp
next
  case (snoc x xs)
  show ?case
  proof (cases "P x")
    case True
    then have "xs @ [x] = xs @ last (filter P (xs @ [x])) # [] \<and> (\<forall>y\<in>set []. \<not> P y)"
      by simp
    then show ?thesis by blast
  next
    case False
    with snoc.prems have "filter P xs \<noteq> []" by simp
    from snoc.IH[OF this] obtain pre post where
      "xs = pre @ last (filter P xs) # post" and "\<forall>y\<in>set post. \<not> P y"
      by blast
    with False have "xs @ [x] = pre @ last (filter P (xs @ [x])) # (post @ [x])
        \<and> (\<forall>y\<in>set (post @ [x]). \<not> P y)"
      by simp
    then show ?thesis by blast
  qed
qed

subsection \<open>Invariants of the loop\<close>

lemma nav_iter_invariant:
  assumes "P s"
    and "\<And>s s'. P s \<Longrightarrow> \<not> terminal s \<Longrightarrow> nav_step cfg s = Inr s' \<Longrightarrow> P s'"
    and "nav_iter n cfg s = Inr s'"
  shows "P s'"
  using assms(1,3)
proof (induction n arbitrary: s)
  case 0
  then show ?case by simp
next
  case (Suc n)
  show ?case
  proof (cases "terminal s")
    case True
    with Suc.prems show ?thesis by simp
  next
    case False
    with Suc.prems(2) obtain s1 where
      step: "nav_step cfg s = Inr s1" and rest: "nav_iter n cfg s1 = Inr s'"
      by (auto split: sum.splits)
    from assms(2)[OF Suc.prems(1) False step] rest show ?thesis
      by (rule Suc.IH)
  qed
qed

lemma init_state_path:
  assumes "init_state cfg = Inr s"
  shows "robotPath s = [linear_index cfg (xinit cfg) (yinit cfg)]
       \<and> cellX s = xinit cfg \<and> cellY s = yinit cfg
       \<and> lastCellX s = xinit cfg \<and> lastCellY s = yinit cfg
       \<and> \<not> backtracking s \<and> iterationsRepeated s = 0 \<and> \<not> finish s \<and> \<not> unachievable s
       \<and> commands s = []"
  using assms by (auto simp: init_state_def split: sum.splits)

text \<open>What an iteration does to the path: nothing, a push of a free cell, or a pop followed by a push of the entry below.\<close>

lemma nav_step_path:
  assumes "nav_step cfg s = Inr s'"
  shows "(robotPath s' = robotPath s \<and> cellX s' = cellX s \<and> cellY s' = cellY s)
       \<or> (\<exists>c. is_free cfg s c \<and> cellX s' = fst c \<and> cellY s' = snd c
              \<and> robotPath s' = robotPath s @ [linear_index cfg (fst c) (snd c)])
       \<or> (1 < length (robotPath s)
            \<and> robotPath s' = butlast (robotPath s) @ [last (butlast (robotPath s))]
            \<and> linear_index cfg (cellX s') (cellY s') = last (butlast (robotPath s)))"
proof -
  from assms obtain fc oc m where sc: "scan_neighbours cfg s = Inr (fc, oc, m)"
    by (rule nav_step_scan)
  show ?thesis
  proof (cases "fc = []")
    case False
    let ?c = "last (manhattan_nearest_cell_to_target (xend cfg, yend cfg) fc)"
    have "?c \<in> set fc" using False by (rule nearest_last_in_set)
    then have "?c \<in> set (filter (is_free cfg s) (scan_order cfg s))"
      using scan_neighbours_free[OF sc] by simp
    then have "is_free cfg s ?c" by simp
    with nav_step_forward[OF sc False assms refl] show ?thesis by blast
  next
    case True
    let ?t = "cell_of_index cfg (last (butlast (robotPath s)))"
    have lin: "linear_index cfg (fst ?t) (snd ?t) = last (butlast (robotPath s))"
      by (rule linear_index_of_cell)
    from True sc have "scan_neighbours cfg s = Inr ([], oc, m)" by simp
    from nav_step_dead_end[OF this assms refl]
    consider "robotPath s' = robotPath s" and "cellX s' = cellX s" and "cellY s' = cellY s"
      | "1 < length (robotPath s)" and "cellX s' = fst ?t" and "cellY s' = snd ?t"
        and "robotPath s' = butlast (robotPath s) @ [linear_index cfg (fst ?t) (snd ?t)]"
      by blast
    then show ?thesis
    proof cases
      case 1
      then show ?thesis by simp
    next
      case 2
      then show ?thesis by (simp add: lin)
    qed
  qed
qed

lemma nav_step_backtracking:
  assumes "nav_step cfg s = Inr s'" and "backtracking s"
  shows "backtracking s'"
proof -
  from assms(1) obtain fc oc m where sc: "scan_neighbours cfg s = Inr (fc, oc, m)"
    by (rule nav_step_scan)
  have "fc = []"
    using scan_neighbours_free[OF sc] assms(2) by (simp add: is_free_def)
  with sc have "scan_neighbours cfg s = Inr ([], oc, m)" by simp
  from nav_step_dead_end[OF this assms(1) refl] assms(2) show ?thesis by auto
qed

lemma robotPath_obstacle_free:
  assumes "init_state cfg = Inr s0"
    and "linear_index cfg (xinit cfg) (yinit cfg) \<notin> set (obstacles cfg)"
    and "nav_iter n cfg s0 = Inr s"
  shows "set (robotPath s) \<inter> set (obstacles cfg) = {}"
proof (rule nav_iter_invariant[where P = "\<lambda>s. set (robotPath s) \<inter> set (obstacles cfg) = {}",
        OF _ _ assms(3)])
  show "set (robotPath s0) \<inter> set (obstacles cfg) = {}"
    using init_state_path[OF assms(1)] assms(2) by simp
next
  fix s s'
  assume inv: "set (robotPath s) \<inter> set (obstacles cfg) = {}"
    and step: "nav_step cfg s = Inr s'"
  from nav_step_path[OF step] show "set (robotPath s') \<inter> set (obstacles cfg) = {}"
  proof (elim disjE exE conjE)
    assume "robotPath s' = robotPath s"
    with inv show ?thesis by simp
  next
    fix c
    assume "is_free cfg s c"
      and "robotPath s' = robotPath s @ [linear_index cfg (fst c) (snd c)]"
    with inv show ?thesis by (simp add: is_free_def)
  next
    assume long: "1 < length (robotPath s)"
      and p: "robotPath s' = butlast (robotPath s) @ [last (butlast (robotPath s))]"
    from long have "butlast (robotPath s) \<noteq> []"
      by (cases "robotPath s" rule: rev_cases) auto
    then have "last (butlast (robotPath s)) \<in> set (butlast (robotPath s))"
      by (rule last_in_set)
    then have "set (robotPath s') \<subseteq> set (robotPath s)"
      using p by (auto dest: in_set_butlastD)
    with inv show ?thesis by blast
  qed
qed

subsection \<open>Counting dead-end detections\<close>

lemma dead_end_detections_terminal:
  assumes "terminal s"
  shows "dead_end_detections n cfg s = 0"
  using assms by (cases n) simp_all

lemma dead_end_detections_bound:
  assumes "0 \<le> iterationsRepeated s"
  shows "int (dead_end_detections n cfg s) \<le> max 1 (3 - iterationsRepeated s)"
  using assms
proof (induction n arbitrary: s)
  case 0
  then show ?case by simp
next
  case (Suc n)
  show ?case
  proof (cases "terminal s")
    case True
    then show ?thesis by simp
  next
    case nt: False
    show ?thesis
    proof (cases "nav_step cfg s")
      case (Inl e)
      with nt show ?thesis by (simp add: le_max_iff_disj)
    next
      case (Inr s')
      then obtain fc oc m where sc: "scan_neighbours cfg s = Inr (fc, oc, m)"
        by (rule nav_step_scan)
      show ?thesis
      proof (cases "fc = []")
        case False
        then have nd: "\<not> dead_end cfg s" by (simp add: dead_end_def sc)
        from nav_step_forward[OF sc False Inr refl]
        have c': "iterationsRepeated s' = iterationsRepeated s + 1" by simp
        with Suc.prems have "0 \<le> iterationsRepeated s'" by simp
        from Suc.IH[OF this] c' nt nd Inr show ?thesis by simp
      next
        case True
        then have de: "dead_end cfg s" by (simp add: dead_end_def sc)
        from True sc have "scan_neighbours cfg s = Inr ([], oc, m)" by simp
        from nav_step_dead_end[OF this Inr refl]
        consider "unachievable s'"
          | "iterationsRepeated s + 1 < maxRepeatedIteration"
            and "iterationsRepeated s' = iterationsRepeated s + 2"
          by blast
        then show ?thesis
        proof cases
          case 1
          then have "dead_end_detections n cfg s' = 0"
            by (simp add: dead_end_detections_terminal terminal_def)
          with nt de Inr show ?thesis by simp
        next
          case 2
          with Suc.prems have "0 \<le> iterationsRepeated s'" by simp
          from Suc.IH[OF this] 2 Suc.prems nt de Inr show ?thesis
            by (simp add: maxRepeatedIteration_def)
        qed
      qed
    qed
  qed
qed

subsection \<open>Runs that have ended\<close>

lemma nav_iter_terminal:
  assumes "terminal s"
  shows "nav_iter n cfg s = Inr s"
  using assms by (cases n) simp_all

lemma nav_iter_stable:
  assumes "nav_iter k cfg s = Inr s'" and "terminal s'"
  shows "nav_iter (k + j) cfg s = Inr s'"
  using assms
proof (induction k arbitrary: s)
  case 0
  then show ?case by (simp add: nav_iter_terminal)
next
  case (Suc k)
  show ?case
  proof (cases "terminal s")
    case True
    with Suc.prems show ?thesis by simp
  next
    case False
    with Suc.prems(1) obtain s1 where
      "nav_step cfg s = Inr s1" and "nav_iter k cfg s1 = Inr s'"
      by (auto split: sum.splits)
    with Suc.IH[OF this(2) Suc.prems(2)] False show ?thesis by simp
  qed
qed

lemma nav_loop_of_iter:
  assumes "nav_iter n cfg s = Inr s'" and "terminal s'"
  shows "nav_loop cfg s = Inr s'"
  using assms
proof (induction n arbitrary: s)
  case 0
  then show ?case by simp
next
  case (Suc n)
  show ?case
  proof (cases "terminal s")
    case True
    with Suc.prems show ?thesis by simp
  next
    case False
    with Suc.prems(1) obtain s1 where
      "nav_step cfg s = Inr s1" and "nav_iter n cfg s1 = Inr s'"
      by (auto split: sum.splits)
    with Suc.IH[OF this(2) Suc.prems(2)] False show ?thesis by simp
  qed
qed

subsection \<open>Runs on valid configurations raise no exception\<close>

lemma grid_dims_row:
  assumes "grid_dims cfg m" and "in_bounds cfg x y"
  shows "length m = nat (ylength cfg) \<and> length (m ! nat y) = nat (xlength cfg)"
proof -
  have "length (map length m) = length (replicate (nat (ylength cfg)) (nat (xlength cfg)))"
    using assms(1) by (simp only: grid_dims_def)
  then have len: "length m = nat (ylength cfg)" by simp
  have y: "nat y < length m"
    using assms(2) len by (simp add: in_bounds_def)
  then have "length (m ! nat y) = map length m ! nat y" by simp
  also have "\<dots> = nat (xlength cfg)"
    using assms(1) y len by (simp add: grid_dims_def)
  finally show ?thesis using len by simp
qed

lemma np_get_ok:
  assumes "grid_dims cfg m" and "in_bounds cfg x y"
  shows "np_get m y x = Inr (m ! nat y ! nat x)"
  using grid_dims_row[OF assms] assms(2)
  by (simp add: np_get_def np_index_def in_bounds_def)

lemma np_set_ok:
  assumes "grid_dims cfg m" and "in_bounds cfg x y"
  shows "\<exists>m'. np_set m y x v = Inr m' \<and> grid_dims cfg m'"
proof -
  have row: "length m = nat (ylength cfg)" "length (m ! nat y) = nat (xlength cfg)"
    using grid_dims_row[OF assms] by simp_all
  have set: "np_set m y x v = Inr (m[nat y := (m ! nat y)[nat x := v]])"
    using row assms(2) by (simp add: np_set_def np_index_def in_bounds_def)
  have y: "nat y < length m"
    using assms(2) row by (simp add: in_bounds_def)
  have "map length (m[nat y := (m ! nat y)[nat x := v]]) = (map length m)[nat y := length (m ! nat y)]"
    by (simp add: map_update)
  also have "\<dots> = map length m"
    using y by (simp add: list_update_same_conv)
  finally have "grid_dims cfg (m[nat y := (m ! nat y)[nat x := v]])"
    using assms(1) by (simp add: grid_dims_def)
  with set show ?thesis by simp
qed

lemma mark_path_step_ok:
  assumes "grid_dims cfg m" and "in_bounds cfg x y"
  shows "\<exists>m'. mark_path_step m y x = Inr m' \<and> grid_dims cfg m'"
  using np_set_ok[OF assms, of 3] assms(1)
  by (simp add: mark_path_step_def np_get_ok[OF assms])

lemma neighbour_in_bounds:
  assumes "neighbour cfg cx cy d = Some c" and "in_bounds cfg cx cy"
  shows "in_bounds cfg (fst c) (snd c) \<and> adjacent (cx, cy) c"
  using assms by (auto simp: neighbour_def in_bounds_def adjacent_def split: if_splits)

lemma map_filter_source:
  assumes "c \<in> set (List.map_filter f xs)"
  shows "\<exists>x. f x = Some c"
  using assms by (auto simp: map_filter_def)

lemma scan_order_in_bounds:
  assumes "c \<in> set (scan_order cfg s)" and "in_bounds cfg (cellX s) (cellY s)"
  shows "in_bounds cfg (fst c) (snd c) \<and> adjacent (cellX s, cellY s) c"
proof -
  from assms(1) have "\<exists>d. neighbour cfg (cellX s) (cellY s) d = Some c"
    unfolding scan_order_def by (rule map_filter_source)
  then obtain d where "neighbour cfg (cellX s) (cellY s) d = Some c" ..
  from neighbour_in_bounds[OF this assms(2)] show ?thesis .
qed

lemma scan_directions_ok:
  assumes "in_bounds cfg (cellX s) (cellY s)" and "grid_dims cfg m"
  shows "\<exists>f' ob' m'. scan_directions cfg s ds (f, ob, m) = Inr (f', ob', m') \<and> grid_dims cfg m'"
  using assms(2)
proof (induction ds arbitrary: f ob m)
  case Nil
  then show ?case by simp
next
  case (Cons d ds)
  show ?case
  proof (cases "neighbour cfg (cellX s) (cellY s) d")
    case None
    with Cons.IH[OF Cons.prems] show ?thesis by simp
  next
    case (Some c)
    obtain nx ny where c: "c = (nx, ny)" by (cases c)
    have nb: "in_bounds cfg nx ny"
      using neighbour_in_bounds[OF Some assms(1)] c by simp
    from np_set_ok[OF Cons.prems nb, of 6] obtain m6 where
      m6: "np_set m ny nx 6 = Inr m6" "grid_dims cfg m6" by blast
    from np_set_ok[OF Cons.prems nb, of 5] obtain m5 where
      m5: "np_set m ny nx 5 = Inr m5" "grid_dims cfg m5" by blast
    note get = np_get_ok[OF Cons.prems nb]
    show ?thesis
      using Cons.IH[OF m6(2)] Cons.IH[OF m5(2)] Cons.IH[OF Cons.prems]
      by (simp add: Some c m6(1) m5(1) get)
  qed
qed

lemma scan_neighbours_ok:
  assumes "in_bounds cfg (cellX s) (cellY s)" and "grid_dims cfg (final_map_state s)"
  shows "\<exists>fc oc m. scan_neighbours cfg s = Inr (fc, oc, m) \<and> grid_dims cfg m"
  unfolding scan_neighbours_def using assms by (rule scan_directions_ok)

lemma direction_adjacent:
  assumes "adjacent a b"
  shows "\<exists>c. direction_from_cells a b = Inr c"
  using assms
  by (cases a, cases b) (auto simp: direction_from_cells_def adjacent_def)

lemma direction_codes:
  assumes "direction_from_cells a b = Inr c"
  shows "c \<in> {0, 1, 2, 3}"
  using assms
  by (auto simp: direction_from_cells_def split: prod.splits if_splits)

lemma commit_move_ok:
  assumes "grid_dims cfg (final_map_state s)"
    and "in_bounds cfg (cellX s) (cellY s)"
    and "in_bounds cfg nx ny"
    and "adjacent (cellX s, cellY s) (nx, ny)"
  shows "\<exists>s'. commit_move cfg s fc (nx, ny) = Inr s' \<and> grid_dims cfg (final_map_state s')"
proof -
  from direction_adjacent[OF assms(4)] obtain c where
    c: "direction_from_cells (cellX s, cellY s) (nx, ny) = Inr c" ..
  have "\<exists>m1. (if length fc > 1
               then np_set (final_map_state s) (cellY s) (cellX s) 4
               else Inr (final_map_state s)) = Inr m1 \<and> grid_dims cfg m1"
    using np_set_ok[OF assms(1,2), of 4] assms(1) by simp
  then obtain m1 where m1: "(if length fc > 1
               then np_set (final_map_state s) (cellY s) (cellX s) 4
               else Inr (final_map_state s)) = Inr m1" and d1: "grid_dims cfg m1"
    by blast
  have "\<exists>m2. (if nx = xend cfg \<and> ny = yend cfg
               then np_set m1 ny nx 2
               else mark_path_step m1 ny nx) = Inr m2 \<and> grid_dims cfg m2"
  proof (cases "nx = xend cfg \<and> ny = yend cfg")
    case True
    then have "(if nx = xend cfg \<and> ny = yend cfg
               then np_set m1 ny nx 2
               else mark_path_step m1 ny nx) = np_set m1 ny nx 2"
      by (rule if_P)
    then show ?thesis
      using np_set_ok[OF d1 assms(3), of 2] by (simp only:)
  next
    case False
    then have "(if nx = xend cfg \<and> ny = yend cfg
               then np_set m1 ny nx 2
               else mark_path_step m1 ny nx) = mark_path_step m1 ny nx"
      by (rule if_not_P)
    then show ?thesis
      using mark_path_step_ok[OF d1 assms(3)] by (simp only:)
  qed
  then obtain m2 where m2: "(if nx = xend cfg \<and> ny = yend cfg
               then np_set m1 ny nx 2
               else mark_path_step m1 ny nx) = Inr m2" and d2: "grid_dims cfg m2"
    by blast
  have "commit_move cfg s fc (nx, ny) =
          Inr (s\<lparr>lastCellX := cellX s, lastCellY := cellY s,
                 cellX := nx, cellY := ny,
                 robotPath := robotPath s @ [linear_index cfg nx ny],
                 final_map_state := m2,
                 finish := (finish s \<or> (nx = xend cfg \<and> ny = yend cfg)),
                 commands := commands s @ [c],
                 iterationsRepeated := iterationsRepeated s + 1,
                 unachievable := (unachievable s \<or> iterationsRepeated s + 1 \<ge> 200)\<rparr>)"
    unfolding commit_move_def by (simp only: prod.case c sum.case m1 m2)
  then show ?thesis by (simp add: d2)
qed

lemma forward_branch_ok:
  assumes "grid_dims cfg (final_map_state s)"
    and "in_bounds cfg (cellX s) (cellY s)"
    and "fc \<noteq> []"
    and "\<forall>c\<in>set fc. in_bounds cfg (fst c) (snd c) \<and> adjacent (cellX s, cellY s) c"
  shows "\<exists>s'. forward_branch cfg s fc = Inr s' \<and> grid_dims cfg (final_map_state s')"
proof -
  let ?near = "manhattan_nearest_cell_to_target (xend cfg, yend cfg) fc"
  obtain nx ny where t: "last ?near = (nx, ny)" by (cases "last ?near")
  have "last ?near \<in> set fc" using assms(3) by (rule nearest_last_in_set)
  with assms(4) t have nb: "in_bounds cfg nx ny" and adj: "adjacent (cellX s, cellY s) (nx, ny)"
    by auto
  from mark_path_step_ok[OF assms(1,2)] obtain m where
    m: "mark_path_step (final_map_state s) (cellY s) (cellX s) = Inr m" and d: "grid_dims cfg m"
    by blast
  let ?s1 = "s\<lparr>nearestCell := (nx, ny), final_map_state := m\<rparr>"
  have "\<exists>s'. commit_move cfg ?s1 fc (nx, ny) = Inr s' \<and> grid_dims cfg (final_map_state s')"
    by (rule commit_move_ok) (simp_all add: d assms(2) nb adj)
  then show ?thesis
    using manhattan_nearest_nonempty[OF assms(3), of "(xend cfg, yend cfg)"]
    by (simp add: forward_branch_def Let_def m t)
qed

lemma dead_end_branch_ok:
  assumes "grid_dims cfg (final_map_state s)"
    and "in_bounds cfg (cellX s) (cellY s)"
    and "iterationsRepeated s + 1 < maxRepeatedIteration \<and> 1 < length (robotPath s)
         \<longrightarrow> in_bounds cfg (fst (cell_of_index cfg (last (butlast (robotPath s)))))
                 (snd (cell_of_index cfg (last (butlast (robotPath s)))))
             \<and> adjacent (cellX s, cellY s) (cell_of_index cfg (last (butlast (robotPath s))))"
  shows "\<exists>s'. dead_end_branch cfg s fc = Inr s' \<and> grid_dims cfg (final_map_state s')"
proof (cases "iterationsRepeated s + 1 < maxRepeatedIteration \<and> 1 < length (robotPath s)")
  case False
  then show ?thesis
    using assms(1) by (auto simp: dead_end_branch_def Let_def)
next
  case True
  obtain nx ny where t: "cell_of_index cfg (last (butlast (robotPath s))) = (nx, ny)"
    by (cases "cell_of_index cfg (last (butlast (robotPath s)))")
  with assms(3) True have nb: "in_bounds cfg nx ny" and adj: "adjacent (cellX s, cellY s) (nx, ny)"
    by auto
  have x: "xlength cfg \<noteq> 0" using assms(2) by (auto simp: in_bounds_def)
  let ?s1 = "s\<lparr>iterationsRepeated := iterationsRepeated s + 1, backtracking := True,
                robotPath := butlast (robotPath s)\<rparr>"
  have "\<exists>s'. commit_move cfg ?s1 fc (nx, ny) = Inr s' \<and> grid_dims cfg (final_map_state s')"
    by (rule commit_move_ok) (simp_all add: assms(1,2) nb adj)
  then show ?thesis
    using True x by (simp add: dead_end_branch_def Let_def t)
qed

lemma adjacent_sym: "adjacent a b \<Longrightarrow> adjacent b a"
  by (simp add: adjacent_def abs_minus_commute)

lemma init_state_ok:
  assumes "valid_config cfg"
  shows "\<exists>s0. init_state cfg = Inr s0 \<and> nav_inv cfg s0"
proof -
  from assms have pos: "0 < xlength cfg" "0 < ylength cfg"
    and st: "in_bounds cfg (xinit cfg) (yinit cfg)"
    and en: "in_bounds cfg (xend cfg) (yend cfg)"
    by (simp_all add: valid_config_def)
  let ?m0 = "replicate (nat (ylength cfg)) (replicate (nat (xlength cfg)) (0::int))"
  have z: "np_zeros (ylength cfg) (xlength cfg) = Inr ?m0"
    using pos by (simp add: np_zeros_def)
  have d0: "grid_dims cfg ?m0" by (simp add: grid_dims_def)
  from np_set_ok[OF d0 st, of 1] obtain m1 where
    m1: "np_set ?m0 (yinit cfg) (xinit cfg) 1 = Inr m1" and d1: "grid_dims cfg m1" by blast
  from np_set_ok[OF d1 en, of 2] obtain m2 where
    m2: "np_set m1 (yend cfg) (xend cfg) 2 = Inr m2" and d2: "grid_dims cfg m2" by blast
  have "initial_map_state cfg = Inr m2"
    by (simp add: initial_map_state_def z m1 m2)
  then show ?thesis
    using st d2 by (simp add: init_state_def nav_inv_def)
qed

lemma nav_step_inv:
  assumes inv: "nav_inv cfg s" and nt: "\<not> terminal s"
  shows "\<exists>s'. nav_step cfg s = Inr s' \<and> nav_inv cfg s'"
proof -
  from inv have ib: "in_bounds cfg (cellX s) (cellY s)"
    and gd: "grid_dims cfg (final_map_state s)"
    and pne: "robotPath s \<noteq> []"
    and plast: "last (robotPath s) = linear_index cfg (cellX s) (cellY s)"
    and c0: "0 \<le> iterationsRepeated s"
    and bt: "backtracking s \<longrightarrow> 2 \<le> iterationsRepeated s \<or> unachievable s"
    and prev: "\<not> backtracking s \<and> 1 < length (robotPath s) \<longrightarrow>
            last (butlast (robotPath s)) = linear_index cfg (lastCellX s) (lastCellY s)
            \<and> in_bounds cfg (lastCellX s) (lastCellY s)
            \<and> adjacent (cellX s, cellY s) (lastCellX s, lastCellY s)"
    by (simp_all add: nav_inv_def)
  from nt have nf: "\<not> finish s" and nu: "\<not> unachievable s"
    by (simp_all add: terminal_def)
  from scan_neighbours_ok[OF ib gd] obtain fc oc m where
    sc: "scan_neighbours cfg s = Inr (fc, oc, m)" and gdm: "grid_dims cfg m" by blast
  have fc: "fc = filter (is_free cfg s) (scan_order cfg s)"
    using sc by (rule scan_neighbours_free)
  have nbs: "\<forall>c\<in>set fc. in_bounds cfg (fst c) (snd c) \<and> adjacent (cellX s, cellY s) c"
    using scan_order_in_bounds[OF _ ib] by (simp add: fc)
  let ?s1 = "s\<lparr>final_map_state := m\<rparr>"
  show ?thesis
  proof (cases "fc = []")
    case False
    have "\<exists>s'. forward_branch cfg ?s1 fc = Inr s' \<and> grid_dims cfg (final_map_state s')"
      by (rule forward_branch_ok) (simp_all add: gdm ib False nbs)
    then obtain s' where fb: "forward_branch cfg ?s1 fc = Inr s'"
      and gd': "grid_dims cfg (final_map_state s')" by blast
    have step: "nav_step cfg s = Inr s'"
      using False by (simp add: nav_step_def sc fb)
    let ?t = "last (manhattan_nearest_cell_to_target (xend cfg, yend cfg) fc)"
    have mem: "?t \<in> set fc" using False by (rule nearest_last_in_set)
    with nbs have tb: "in_bounds cfg (fst ?t) (snd ?t)"
      and adj: "adjacent (cellX s, cellY s) ?t" by auto
    from mem fc have "is_free cfg s ?t" by simp
    then have nb: "\<not> backtracking s" by (simp add: is_free_def)
    note eff = nav_step_forward[OF sc False step refl]
    have adj': "adjacent (cellX s', cellY s') (lastCellX s', lastCellY s')"
      using adjacent_sym[OF adj] eff by simp
    have "nav_inv cfg s'"
      unfolding nav_inv_def
      using eff tb gd' c0 nb nf ib plast pne adj'
      by auto
    with step show ?thesis by blast
  next
    case True
    have small: "\<not> backtracking s" if "iterationsRepeated s + 1 < maxRepeatedIteration"
      using that bt nu by (auto simp: maxRepeatedIteration_def)
    have prior: "cell_of_index cfg (last (butlast (robotPath s))) = (lastCellX s, lastCellY s)
                \<and> in_bounds cfg (lastCellX s) (lastCellY s)
                \<and> adjacent (cellX s, cellY s) (lastCellX s, lastCellY s)"
      if "iterationsRepeated s + 1 < maxRepeatedIteration" and "1 < length (robotPath s)"
    proof -
      from prev small[OF that(1)] that(2)
      have p: "last (butlast (robotPath s)) = linear_index cfg (lastCellX s) (lastCellY s)"
        and b: "in_bounds cfg (lastCellX s) (lastCellY s)"
        and a: "adjacent (cellX s, cellY s) (lastCellX s, lastCellY s)"
        by simp_all
      from b have "cell_of_index cfg (linear_index cfg (lastCellX s) (lastCellY s))
                     = (lastCellX s, lastCellY s)"
        by (simp add: in_bounds_def cell_of_linear_index)
      with p b a show ?thesis by simp
    qed
    have "\<exists>s'. dead_end_branch cfg ?s1 fc = Inr s' \<and> grid_dims cfg (final_map_state s')"
      by (rule dead_end_branch_ok) (use prior in \<open>simp_all add: gdm ib\<close>)
    then obtain s' where db: "dead_end_branch cfg ?s1 fc = Inr s'"
      and gd': "grid_dims cfg (final_map_state s')" by blast
    have step: "nav_step cfg s = Inr s'"
      using db by (simp add: nav_step_def sc True)
    from True sc have sc': "scan_neighbours cfg s = Inr ([], oc, m)" by simp
    let ?t = "cell_of_index cfg (last (butlast (robotPath s)))"
    from nav_step_dead_end[OF sc' step refl]
    consider (halt) "unachievable s'" and "robotPath s' = robotPath s"
        and "cellX s' = cellX s" and "cellY s' = cellY s"
        and "lastCellX s' = lastCellX s" and "lastCellY s' = lastCellY s"
        and "iterationsRepeated s' = iterationsRepeated s + 1" and "finish s' = finish s"
        and "backtracking s' = (backtracking s \<or> iterationsRepeated s + 1 < maxRepeatedIteration)"
      | (retreat) "iterationsRepeated s + 1 < maxRepeatedIteration" and "1 < length (robotPath s)"
        and "cellX s' = fst ?t" and "cellY s' = snd ?t"
        and "robotPath s' = butlast (robotPath s) @ [linear_index cfg (fst ?t) (snd ?t)]"
        and "backtracking s'" and "iterationsRepeated s' = iterationsRepeated s + 2"
        and "finish s' = (finish s \<or> (fst ?t = xend cfg \<and> snd ?t = yend cfg))"
      by blast
    then have "nav_inv cfg s'"
    proof cases
      case halt
      have "\<not> backtracking s' \<Longrightarrow> \<not> backtracking s" using halt by simp
      with prev halt have "\<not> backtracking s' \<and> 1 < length (robotPath s') \<longrightarrow>
            last (butlast (robotPath s')) = linear_index cfg (lastCellX s') (lastCellY s')
            \<and> in_bounds cfg (lastCellX s') (lastCellY s')
            \<and> adjacent (cellX s', cellY s') (lastCellX s', lastCellY s')"
        by simp
      with halt ib gd' pne plast c0 nf show ?thesis
        unfolding nav_inv_def by simp
    next
      case retreat
      from prior[OF retreat(1,2)] have t: "?t = (lastCellX s, lastCellY s)"
        and lb: "in_bounds cfg (lastCellX s) (lastCellY s)" by simp_all
      from retreat(1) have "iterationsRepeated s + 2 < 200"
        by (simp add: maxRepeatedIteration_def)
      with retreat t lb gd' c0 nf show ?thesis
        unfolding nav_inv_def by simp
    qed
    with step show ?thesis by blast
  qed
qed

lemma nav_iter_inv:
  assumes "nav_inv cfg s"
  shows "\<exists>s'. nav_iter n cfg s = Inr s' \<and> nav_inv cfg s'
           \<and> (terminal s' \<or> iterationsRepeated s + int n \<le> iterationsRepeated s')"
  using assms
proof (induction n arbitrary: s)
  case 0
  then show ?case by simp
next
  case (Suc n)
  show ?case
  proof (cases "terminal s")
    case True
    with Suc.prems show ?thesis by simp
  next
    case False
    from nav_step_inv[OF Suc.prems False] obtain s1 where
      step: "nav_step cfg s = Inr s1" and inv1: "nav_inv cfg s1" by blast
    from Suc.IH[OF inv1] obtain s' where
      it: "nav_iter n cfg s1 = Inr s'" and inv': "nav_inv cfg s'"
      and far: "terminal s' \<or> iterationsRepeated s1 + int n \<le> iterationsRepeated s'"
      by blast
    have "terminal s' \<or> iterationsRepeated s + int (Suc n) \<le> iterationsRepeated s'"
    proof (cases "unachievable s1")
      case True
      then have "terminal s1" by (simp add: terminal_def)
      with it have "s' = s1" by (simp add: nav_iter_terminal)
      with \<open>terminal s1\<close> show ?thesis by simp
    next
      case False
      with nav_step_progress[OF step] have "iterationsRepeated s < iterationsRepeated s1"
        by simp
      with far show ?thesis by auto
    qed
    with False step it inv' show ?thesis by simp
  qed
qed

lemma nav_iter_reaches_inv:
  assumes "valid_config cfg" and "init_state cfg = Inr s0" and "nav_iter n cfg s0 = Inr s"
  shows "nav_inv cfg s"
proof -
  from init_state_ok[OF assms(1)] assms(2) have "nav_inv cfg s0" by simp
  from nav_iter_inv[OF this, of n] assms(3) show ?thesis by simp
qed

lemma direction_Inr_adjacent:
  assumes "direction_from_cells a b = Inr c"
  shows "adjacent a b"
  using assms
  by (auto simp: direction_from_cells_def adjacent_def split: prod.splits if_splits)

subsection \<open>Evaluating the planner on concrete inputs\<close>

lemmas nav_eval =
  nav_step_def scan_neighbours_def neighbour_def linear_index_def cell_of_index_def
  np_set_def np_get_def np_index_def np_zeros_def mark_path_step_def
  forward_branch_def dead_end_branch_def commit_move_def direction_from_cells_def
  manhattan_nearest_cell_to_target_def manhattan_def maxRepeatedIteration_def
  init_state_def initial_map_state_def terminal_def Let_def

text \<open>Test 1 of the source (lines 67-76): the 4x4 map with one obstacle.\<close>

definition experiment1 :: config where
  "experiment1 =
     \<lparr>xlength = 4, ylength = 4, xinit = 2, yinit = 0, xend = 0, yend = 3, obstacles = [11]\<rparr>"

text \<open>The first iteration of test 1, from the start cell (2, 0).\<close>

definition experiment1_start :: nav_state where
  "experiment1_start =
     \<lparr>cellX = 2, cellY = 0, lastCellX = 2, lastCellY = 0, robotPath = [3],
      backtracking = False, nearestCell = (2, 0), iterationsRepeated = 0,
      finish = False, unachievable = False,
      final_map_state = [[0, 0, 1, 0], [0, 0, 0, 0], [0, 0, 0, 0], [2, 0, 0, 0]],
      commands = []\<rparr>"

definition experiment1_step1 :: nav_state where
  "experiment1_step1 =
     \<lparr>cellX = 2, cellY = 1, lastCellX = 2, lastCellY = 0, robotPath = [3, 7],
      backtracking = False, nearestCell = (2, 1), iterationsRepeated = 1,
      finish = False, unachievable = False,
      final_map_state = [[0, 5, 4, 5], [0, 0, 3, 0], [0, 0, 0, 0], [2, 0, 0, 0]],
      commands = [3]\<rparr>"

lemma experiment1_init: "init_state experiment1 = Inr experiment1_start"
  by (simp add: experiment1_def experiment1_start_def nav_eval eval_nat_numeral)

lemma experiment1_scan:
  "scan_neighbours experiment1 experiment1_start
     = Inr ([(1, 0), (3, 0), (2, 1)], [],
            [[0, 5, 1, 5], [0, 0, 5, 0], [0, 0, 0, 0], [2, 0, 0, 0]])"
  by (simp add: experiment1_def experiment1_start_def nav_eval)

lemma experiment1_first_step: "nav_step experiment1 experiment1_start = Inr experiment1_step1"
  by (simp add: experiment1_def experiment1_start_def experiment1_step1_def nav_eval)

text \<open>Test 1 runs five iterations and ends on the target (0, 3).\<close>

definition experiment1_final :: nav_state where
  "experiment1_final =
     \<lparr>cellX = 0, cellY = 3, lastCellX = 1, lastCellY = 3,
      robotPath = [3, 7, 6, 10, 14, 13],
      backtracking = False, nearestCell = (0, 3), iterationsRepeated = 5,
      finish = True, unachievable = False,
      final_map_state = [[0, 5, 4, 5], [5, 4, 4, 5], [5, 4, 6, 0], [2, 4, 5, 0]],
      commands = [3, 1, 3, 3, 1]\<rparr>"

lemma experiment1_five_steps: "nav_iter 5 experiment1 experiment1_start = Inr experiment1_final"
  by (simp add: experiment1_def experiment1_start_def experiment1_final_def nav_eval
        eval_nat_numeral)

text \<open>
  A 3x2 map on which the start (0, 0) has the single free neighbour (0, 1), and that
  cell has none: obstacles at (1, 0) and (1, 1), target (2, 1).
\<close>

definition dead_end_map :: config where
  "dead_end_map =
     \<lparr>xlength = 3, ylength = 2, xinit = 0, yinit = 0, xend = 2, yend = 1, obstacles = [2, 5]\<rparr>"

definition dead_end_start :: nav_state where
  "dead_end_start =
     \<lparr>cellX = 0, cellY = 0, lastCellX = 0, lastCellY = 0, robotPath = [1],
      backtracking = False, nearestCell = (0, 0), iterationsRepeated = 0,
      finish = False, unachievable = False,
      final_map_state = [[1, 0, 0], [0, 0, 2]], commands = []\<rparr>"

definition dead_end_step1 :: nav_state where
  "dead_end_step1 =
     \<lparr>cellX = 0, cellY = 1, lastCellX = 0, lastCellY = 0, robotPath = [1, 4],
      backtracking = False, nearestCell = (0, 1), iterationsRepeated = 1,
      finish = False, unachievable = False,
      final_map_state = [[1, 6, 0], [3, 0, 2]], commands = [3]\<rparr>"

definition dead_end_step2 :: nav_state where
  "dead_end_step2 =
     \<lparr>cellX = 0, cellY = 0, lastCellX = 0, lastCellY = 1, robotPath = [1, 1],
      backtracking = True, nearestCell = (0, 1), iterationsRepeated = 3,
      finish = False, unachievable = False,
      final_map_state = [[1, 6, 0], [3, 6, 2]], commands = [3, 0]\<rparr>"

definition dead_end_step3 :: nav_state where
  "dead_end_step3 =
     \<lparr>cellX = 0, cellY = 0, lastCellX = 0, lastCellY = 1, robotPath = [1, 1],
      backtracking = True, nearestCell = (0, 1), iterationsRepeated = 4,
      finish = False, unachievable = True,
      final_map_state = [[1, 6, 0], [3, 6, 2]], commands = [3, 0]\<rparr>"

lemma dead_end_init: "init_state dead_end_map = Inr dead_end_start"
  by (simp add: dead_end_map_def dead_end_start_def nav_eval eval_nat_numeral)

lemma dead_end_first_step: "nav_step dead_end_map dead_end_start = Inr dead_end_step1"
  by (simp add: dead_end_map_def dead_end_start_def dead_end_step1_def nav_eval)

lemma dead_end_second_step: "nav_step dead_end_map dead_end_step1 = Inr dead_end_step2"
  by (simp add: dead_end_map_def dead_end_step1_def dead_end_step2_def nav_eval)

lemma dead_end_third_step: "nav_step dead_end_map dead_end_step2 = Inr dead_end_step3"
  by (simp add: dead_end_map_def dead_end_step2_def dead_end_step3_def nav_eval)

lemma dead_end_two_steps: "nav_iter 2 dead_end_map dead_end_start = Inr dead_end_step2"
proof -
  have "\<not> terminal dead_end_start" and "\<not> terminal dead_end_step1"
    by (simp_all add: terminal_def dead_end_start_def dead_end_step1_def)
  then show ?thesis
    by (simp add: eval_nat_numeral dead_end_first_step dead_end_second_step)
qed

lemma dead_end_last_step: "nav_iter 1 dead_end_map dead_end_step2 = Inr dead_end_step3"
proof -
  have "\<not> terminal dead_end_step2"
    by (simp add: terminal_def dead_end_step2_def)
  then show ?thesis
    by (simp add: dead_end_third_step)
qed

lemma dead_end_scan:
  "scan_neighbours dead_end_map dead_end_step1 = Inr ([], [(1, 1)], [[1, 6, 0], [3, 6, 2]])"
  by (simp add: dead_end_map_def dead_end_step1_def nav_eval)

lemma dead_end_run: "nav_iter 3 dead_end_map dead_end_start = Inr dead_end_step3"
proof -
  have "\<not> terminal dead_end_start" and "\<not> terminal dead_end_step1"
    and "\<not> terminal dead_end_step2"
    by (simp_all add: terminal_def dead_end_start_def dead_end_step1_def dead_end_step2_def)
  then show ?thesis
    by (simp add: eval_nat_numeral dead_end_first_step dead_end_second_step
          dead_end_third_step)
qed

lemma dead_end_count: "dead_end_detections 3 dead_end_map dead_end_start = 2"
proof -
  have nt: "\<not> terminal dead_end_start" "\<not> terminal dead_end_step1"
    "\<not> terminal dead_end_step2"
    by (simp_all add: terminal_def dead_end_start_def dead_end_step1_def dead_end_step2_def)
  have d0: "\<not> dead_end dead_end_map dead_end_start"
    by (simp add: dead_end_def dead_end_map_def dead_end_start_def nav_eval)
  have d1: "dead_end dead_end_map dead_end_step1"
    by (simp add: dead_end_def dead_end_scan)
  have d2: "dead_end dead_end_map dead_end_step2"
    by (simp add: dead_end_def dead_end_map_def dead_end_step2_def nav_eval)
  show ?thesis
    by (simp add: eval_nat_numeral nt d0 d1 d2 dead_end_first_step dead_end_second_step
          dead_end_third_step)
qed

lemma dead_end_map_valid: "valid_config dead_end_map"
  by (simp add: valid_config_def in_bounds_def dead_end_map_def)

lemma dead_end_map_run: "run_navigation_loop dead_end_map = Inr dead_end_step3"
proof -
  have "terminal dead_end_step3" by (simp add: terminal_def dead_end_step3_def)
  from nav_loop_of_iter[OF dead_end_run this] show ?thesis
    by (simp add: run_navigation_loop_def dead_end_init)
qed

lemma dead_end_one_step: "nav_iter 1 dead_end_map dead_end_start = Inr dead_end_step1"
proof -
  have "\<not> terminal dead_end_start" by (simp add: terminal_def dead_end_start_def)
  then show ?thesis by (simp add: dead_end_first_step)
qed

text \<open>A 2x2 map whose start (0, 0) is walled in by obstacles at (1, 0) and (0, 1).\<close>

definition walled_map :: config where
  "walled_map =
     \<lparr>xlength = 2, ylength = 2, xinit = 0, yinit = 0, xend = 1, yend = 1, obstacles = [2, 3]\<rparr>"

definition walled_start :: nav_state where
  "walled_start =
     \<lparr>cellX = 0, cellY = 0, lastCellX = 0, lastCellY = 0, robotPath = [1],
      backtracking = False, nearestCell = (0, 0), iterationsRepeated = 0,
      finish = False, unachievable = False,
      final_map_state = [[1, 0], [0, 2]], commands = []\<rparr>"

definition walled_end :: nav_state where
  "walled_end =
     \<lparr>cellX = 0, cellY = 0, lastCellX = 0, lastCellY = 0, robotPath = [1],
      backtracking = True, nearestCell = (0, 0), iterationsRepeated = 1,
      finish = False, unachievable = True,
      final_map_state = [[1, 6], [6, 2]], commands = []\<rparr>"

lemma walled_init: "init_state walled_map = Inr walled_start"
  by (simp add: walled_map_def walled_start_def nav_eval eval_nat_numeral)

lemma walled_scan:
  "scan_neighbours walled_map walled_start = Inr ([], [(1, 0), (0, 1)], [[1, 6], [6, 2]])"
  by (simp add: walled_map_def walled_start_def nav_eval)

lemma walled_first_step: "nav_step walled_map walled_start = Inr walled_end"
  by (simp add: walled_map_def walled_start_def walled_end_def nav_eval)

lemma walled_count: "dead_end_detections 3 walled_map walled_start = 1"
proof -
  have nt: "\<not> terminal walled_start" and t: "terminal walled_end"
    by (simp_all add: terminal_def walled_start_def walled_end_def)
  have d0: "dead_end walled_map walled_start"
    by (simp add: dead_end_def walled_scan)
  show ?thesis
    by (simp add: eval_nat_numeral nt t d0 walled_first_step)
qed

section \<open>Properties\<close>

text \<open>
  C1. In every iteration whose list of free neighbours is not empty, the next cell is a
  free neighbour at minimum Manhattan distance to the target and, among the free
  neighbours at that distance, the one met last in the scan order Up, Left, Right, Down:
  \<open>manhattan_nearest_cell_to_target\<close> returns exactly the minimum-distance cells of its
  input in input order, and the navigator takes the last of them.
\<close>

theorem nearest_free_neighbour_chosen:
  assumes "scan_neighbours cfg s = Inr (freeCells, obstacleCells, m)"
    and "freeCells \<noteq> []"
    and "nav_step cfg s = Inr s'"
  shows "freeCells = filter (is_free cfg s) (scan_order cfg s)
       \<and> manhattan_nearest_cell_to_target (xend cfg, yend cfg) freeCells
           = filter (\<lambda>c. manhattan (xend cfg, yend cfg) c
                           = Min (manhattan (xend cfg, yend cfg) ` set freeCells)) freeCells
       \<and> (cellX s', cellY s')
           = last (manhattan_nearest_cell_to_target (xend cfg, yend cfg) freeCells)
       \<and> (cellX s', cellY s') \<in> set freeCells
       \<and> (\<forall>c\<in>set freeCells.
             manhattan (xend cfg, yend cfg) (cellX s', cellY s') \<le> manhattan (xend cfg, yend cfg) c)
       \<and> (\<exists>pre post. freeCells = pre @ (cellX s', cellY s') # post
             \<and> (\<forall>c\<in>set post.
                   manhattan (xend cfg, yend cfg) (cellX s', cellY s')
                     < manhattan (xend cfg, yend cfg) c))"
proof -
  let ?t = "(xend cfg, yend cfg)"
  let ?mn = "Min (manhattan ?t ` set freeCells)"
  let ?P = "\<lambda>c. manhattan ?t c = ?mn"
  let ?n = "(cellX s', cellY s')"
  have scan: "freeCells = filter (is_free cfg s) (scan_order cfg s)"
    using assms(1) by (rule scan_neighbours_free)
  have nearest: "manhattan_nearest_cell_to_target ?t freeCells = filter ?P freeCells"
    by (rule manhattan_nearest_filter)
  have chosen: "?n = last (manhattan_nearest_cell_to_target ?t freeCells)"
    using nav_step_forward[OF assms refl] by simp
  have ne: "filter ?P freeCells \<noteq> []"
    using manhattan_nearest_nonempty[OF assms(2), of ?t] unfolding nearest .
  have n_last: "?n = last (filter ?P freeCells)"
    using chosen by (simp only: nearest)
  then have "?n \<in> set (filter ?P freeCells)"
    using ne last_in_set by metis
  then have mem: "?n \<in> set freeCells" and dist: "manhattan ?t ?n = ?mn"
    by simp_all
  have least: "\<And>c. c \<in> set freeCells \<Longrightarrow> ?mn \<le> manhattan ?t c"
    by simp
  from last_filter_split[OF ne] obtain pre post where
    split: "freeCells = pre @ ?n # post" and later: "\<forall>c\<in>set post. \<not> ?P c"
    unfolding n_last[symmetric] by blast
  have "\<forall>c\<in>set post. manhattan ?t ?n < manhattan ?t c"
  proof
    fix c assume c: "c \<in> set post"
    then have "c \<in> set freeCells" by (subst split) simp
    from least[OF this] later c dist show "manhattan ?t ?n < manhattan ?t c"
      by fastforce
  qed
  with split have tie: "\<exists>pre post. freeCells = pre @ ?n # post
      \<and> (\<forall>c\<in>set post. manhattan ?t ?n < manhattan ?t c)"
    by blast
  from scan nearest chosen mem least dist tie show ?thesis
    by simp
qed

text \<open>
  In the first iteration of test 1 the free neighbours are Left (1, 0), Right (3, 0) and
  Down (2, 1); Left and Down are both at distance 4 from the target (0, 3), and Down,
  scanned later, is taken.
\<close>

theorem nearest_free_neighbour_chosen_witness:
  "scan_neighbours experiment1 experiment1_start
     = Inr ([(1, 0), (3, 0), (2, 1)], [],
            [[0, 5, 1, 5], [0, 0, 5, 0], [0, 0, 0, 0], [2, 0, 0, 0]])
   \<and> nav_step experiment1 experiment1_start = Inr experiment1_step1
   \<and> manhattan_nearest_cell_to_target (xend experiment1, yend experiment1)
        [(1, 0), (3, 0), (2, 1)] = [(1, 0), (2, 1)]
   \<and> (cellX experiment1_step1, cellY experiment1_step1) = (2, 1)
   \<and> (cellX experiment1_step1, cellY experiment1_step1)
        = last (manhattan_nearest_cell_to_target (xend experiment1, yend experiment1)
                  [(1, 0), (3, 0), (2, 1)])"
proof -
  have ne: "[(1, 0), (3, 0), (2, 1)] \<noteq> ([] :: cell list)" by simp
  have near: "manhattan_nearest_cell_to_target (xend experiment1, yend experiment1)
        [(1, 0), (3, 0), (2, 1)] = [(1, 0), (2, 1)]"
    by (simp add: experiment1_def nav_eval)
  have cell: "(cellX experiment1_step1, cellY experiment1_step1) = (2, 1)"
    by (simp add: experiment1_step1_def)
  from nearest_free_neighbour_chosen[OF experiment1_scan ne experiment1_first_step]
  have "(cellX experiment1_step1, cellY experiment1_step1)
        = last (manhattan_nearest_cell_to_target (xend experiment1, yend experiment1)
                  [(1, 0), (3, 0), (2, 1)])"
    by blast
  with experiment1_scan experiment1_first_step near cell show ?thesis
    by simp
qed

text \<open>
  C2, as the code has it. The claim: a dead end increments the counter and the run
  becomes Unachievable exactly when the counter reaches 3, after exactly 3 dead-end
  detections, however many forward steps were taken. On the code a dead end increments
  \<open>iterationsRepeated\<close> by one and the run becomes Unachievable in that iteration when the
  incremented counter is at least \<open>maxRepeatedIteration\<close>, or else when \<open>robotPath\<close> has a
  single entry; otherwise \<open>backtracking\<close> is set and the navigator steps back. A run has
  at most \<open>maxRepeatedIteration\<close> dead-end detections.
\<close>

theorem dead_end_policy:
  "(\<forall>s oc m s'.
      scan_neighbours cfg s = Inr ([], oc, m) \<and> nav_step cfg s = Inr s' \<and> \<not> unachievable s
      \<longrightarrow> (unachievable s'
             \<longleftrightarrow> maxRepeatedIteration \<le> iterationsRepeated s + 1 \<or> length (robotPath s) \<le> 1)
          \<and> (unachievable s'
             \<longrightarrow> iterationsRepeated s' = iterationsRepeated s + 1
                 \<and> robotPath s' = robotPath s \<and> commands s' = commands s)
          \<and> (\<not> unachievable s'
             \<longrightarrow> backtracking s' \<and> iterationsRepeated s' = iterationsRepeated s + 2
                 \<and> robotPath s' = butlast (robotPath s) @ [last (butlast (robotPath s))]))
   \<and> (\<forall>s0 n. init_state cfg = Inr s0
         \<longrightarrow> int (dead_end_detections n cfg s0) \<le> maxRepeatedIteration)"
proof -
  have count: "\<forall>s0 n. init_state cfg = Inr s0
         \<longrightarrow> int (dead_end_detections n cfg s0) \<le> maxRepeatedIteration"
  proof (intro allI impI)
    fix s0 n
    assume "init_state cfg = Inr s0"
    then have "iterationsRepeated s0 = 0" by (simp add: init_state_path)
    with dead_end_detections_bound[of s0 n cfg]
    show "int (dead_end_detections n cfg s0) \<le> maxRepeatedIteration"
      by (simp add: maxRepeatedIteration_def)
  qed
  have step: "\<forall>s oc m s'.
      scan_neighbours cfg s = Inr ([], oc, m) \<and> nav_step cfg s = Inr s' \<and> \<not> unachievable s
      \<longrightarrow> (unachievable s'
             \<longleftrightarrow> maxRepeatedIteration \<le> iterationsRepeated s + 1 \<or> length (robotPath s) \<le> 1)
          \<and> (unachievable s'
             \<longrightarrow> iterationsRepeated s' = iterationsRepeated s + 1
                 \<and> robotPath s' = robotPath s \<and> commands s' = commands s)
          \<and> (\<not> unachievable s'
             \<longrightarrow> backtracking s' \<and> iterationsRepeated s' = iterationsRepeated s + 2
                 \<and> robotPath s' = butlast (robotPath s) @ [last (butlast (robotPath s))])"
  proof (intro allI impI)
    fix s oc m s'
    assume a: "scan_neighbours cfg s = Inr ([], oc, m) \<and> nav_step cfg s = Inr s'
               \<and> \<not> unachievable s"
    let ?t = "cell_of_index cfg (last (butlast (robotPath s)))"
    have lin: "linear_index cfg (fst ?t) (snd ?t) = last (butlast (robotPath s))"
      by (rule linear_index_of_cell)
    from a nav_step_dead_end[of cfg s oc m s' ?t]
    consider (halt) "maxRepeatedIteration \<le> iterationsRepeated s + 1 \<or> length (robotPath s) \<le> 1"
        and "unachievable s'" and "robotPath s' = robotPath s" and "commands s' = commands s"
        and "iterationsRepeated s' = iterationsRepeated s + 1"
      | (retreat) "iterationsRepeated s + 1 < maxRepeatedIteration" and "1 < length (robotPath s)"
        and "robotPath s' = butlast (robotPath s) @ [linear_index cfg (fst ?t) (snd ?t)]"
        and "backtracking s'" and "iterationsRepeated s' = iterationsRepeated s + 2"
        and "unachievable s' = (unachievable s \<or> 200 \<le> iterationsRepeated s + 2)"
      by blast
    then show "(unachievable s'
             \<longleftrightarrow> maxRepeatedIteration \<le> iterationsRepeated s + 1 \<or> length (robotPath s) \<le> 1)
          \<and> (unachievable s'
             \<longrightarrow> iterationsRepeated s' = iterationsRepeated s + 1
                 \<and> robotPath s' = robotPath s \<and> commands s' = commands s)
          \<and> (\<not> unachievable s'
             \<longrightarrow> backtracking s' \<and> iterationsRepeated s' = iterationsRepeated s + 2
                 \<and> robotPath s' = butlast (robotPath s) @ [last (butlast (robotPath s))])"
    proof cases
      case halt
      then show ?thesis by simp
    next
      case retreat
      with a have "\<not> unachievable s'" by (simp add: maxRepeatedIteration_def)
      with retreat show ?thesis by (simp add: lin)
    qed
  qed
  from step count show ?thesis by (rule conjI)
qed

text \<open>
  On the 3x2 map the second iteration is a dead end with the counter at 1: the run goes
  on, backtracking, with the counter at 3; the whole run has two dead-end detections.
\<close>

theorem dead_end_policy_witness:
  "scan_neighbours dead_end_map dead_end_step1 = Inr ([], [(1, 1)], [[1, 6, 0], [3, 6, 2]])
   \<and> nav_step dead_end_map dead_end_step1 = Inr dead_end_step2
   \<and> \<not> unachievable dead_end_step1
   \<and> \<not> unachievable dead_end_step2
   \<and> backtracking dead_end_step2
   \<and> iterationsRepeated dead_end_step2 = iterationsRepeated dead_end_step1 + 2
   \<and> robotPath dead_end_step2
       = butlast (robotPath dead_end_step1) @ [last (butlast (robotPath dead_end_step1))]
   \<and> init_state dead_end_map = Inr dead_end_start
   \<and> dead_end_detections 3 dead_end_map dead_end_start = 2
   \<and> int (dead_end_detections 3 dead_end_map dead_end_start) \<le> maxRepeatedIteration"
proof -
  have u1: "\<not> unachievable dead_end_step1" and u2: "\<not> unachievable dead_end_step2"
    by (simp_all add: dead_end_step1_def dead_end_step2_def)
  from dead_end_policy[of dead_end_map] dead_end_scan dead_end_second_step u1
  have step: "\<not> unachievable dead_end_step2
      \<longrightarrow> backtracking dead_end_step2
          \<and> iterationsRepeated dead_end_step2 = iterationsRepeated dead_end_step1 + 2
          \<and> robotPath dead_end_step2
              = butlast (robotPath dead_end_step1) @ [last (butlast (robotPath dead_end_step1))]"
    by blast
  from dead_end_policy[of dead_end_map] dead_end_init
  have "int (dead_end_detections 3 dead_end_map dead_end_start) \<le> maxRepeatedIteration"
    by blast
  with step u1 u2 dead_end_scan dead_end_second_step dead_end_init dead_end_count
  show ?thesis by simp
qed

text \<open>
  Where the claim fails. With the start walled in, the first iteration is a dead end with
  a single path entry: the run is Unachievable with the counter at 1, after one
  detection. On the 3x2 map the run is Unachievable with the counter at 4, after two
  detections.
\<close>

theorem dead_end_count_counterexample:
  "init_state walled_map = Inr walled_start
   \<and> scan_neighbours walled_map walled_start = Inr ([], [(1, 0), (0, 1)], [[1, 6], [6, 2]])
   \<and> nav_step walled_map walled_start = Inr walled_end
   \<and> run_navigation_loop walled_map = Inr walled_end
   \<and> unachievable walled_end
   \<and> iterationsRepeated walled_end = 1
   \<and> iterationsRepeated walled_end < maxRepeatedIteration
   \<and> dead_end_detections 3 walled_map walled_start = 1
   \<and> run_navigation_loop dead_end_map = Inr dead_end_step3
   \<and> unachievable dead_end_step3
   \<and> iterationsRepeated dead_end_step3 = 4
   \<and> dead_end_detections 3 dead_end_map dead_end_start = 2
   \<and> maxRepeatedIteration = 3"
proof -
  have t: "terminal walled_end" "terminal dead_end_step3"
    and nt: "\<not> terminal walled_start"
    by (simp_all add: terminal_def walled_end_def dead_end_step3_def walled_start_def)
  have "nav_iter 1 walled_map walled_start = Inr walled_end"
    using nt by (simp add: walled_first_step)
  from nav_loop_of_iter[OF this t(1)]
  have r1: "run_navigation_loop walled_map = Inr walled_end"
    by (simp add: run_navigation_loop_def walled_init)
  from nav_loop_of_iter[OF dead_end_run t(2)]
  have r2: "run_navigation_loop dead_end_map = Inr dead_end_step3"
    by (simp add: run_navigation_loop_def dead_end_init)
  from r1 r2 walled_init walled_scan walled_first_step walled_count dead_end_count
  show ?thesis
    by (simp add: walled_end_def dead_end_step3_def maxRepeatedIteration_def)
qed

text \<open>
  C3. The claim: the cells of the output map that hold the start code 1 and the end code
  2 are never overwritten, in particular not by the crossroad mark. Lines 325-326 write
  the crossroad code 4 into the departed cell without the test for 1 and 2 that lines
  299 and 333 make: in the first iteration of test 1 the start cell (2, 0) has three free
  neighbours, and its code 1 is replaced by 4.
\<close>

theorem start_cell_marked_crossroad:
  "init_state experiment1 = Inr experiment1_start
   \<and> np_get (final_map_state experiment1_start) (yinit experiment1) (xinit experiment1) = Inr 1
   \<and> nav_step experiment1 experiment1_start = Inr experiment1_step1
   \<and> np_get (final_map_state experiment1_step1) (yinit experiment1) (xinit experiment1) = Inr 4
   \<and> np_get (final_map_state experiment1_final) (yinit experiment1) (xinit experiment1) = Inr 4"
  using experiment1_init experiment1_first_step
  by (simp add: experiment1_def experiment1_start_def experiment1_step1_def
        experiment1_final_def np_get_def np_index_def)

text \<open>
  C4. On every valid configuration (positive dimensions, start and end inside the grid)
  the loop ends: the run raises no exception and, after at most 200 iterations, is
  Finished on the target cell or Unachievable.
\<close>

theorem navigation_terminates:
  assumes "valid_config cfg"
  shows "\<exists>s0 s. init_state cfg = Inr s0
           \<and> nav_iter 200 cfg s0 = Inr s
           \<and> run_navigation_loop cfg = Inr s
           \<and> ((finish s \<and> cellX s = xend cfg \<and> cellY s = yend cfg) \<or> unachievable s)"
proof -
  from init_state_ok[OF assms] obtain s0 where
    init: "init_state cfg = Inr s0" and inv0: "nav_inv cfg s0" by blast
  from init have c0: "iterationsRepeated s0 = 0" by (simp add: init_state_path)
  from nav_iter_inv[OF inv0, of 200] obtain s where
    it: "nav_iter 200 cfg s0 = Inr s" and inv: "nav_inv cfg s"
    and far: "terminal s \<or> iterationsRepeated s0 + int 200 \<le> iterationsRepeated s"
    by blast
  from inv have cap: "iterationsRepeated s < 200 \<or> unachievable s"
    and fin: "finish s \<longrightarrow> cellX s = xend cfg \<and> cellY s = yend cfg"
    by (simp_all add: nav_inv_def)
  from far c0 cap have t: "terminal s" by (auto simp: terminal_def)
  from nav_loop_of_iter[OF it t] have "run_navigation_loop cfg = Inr s"
    by (simp add: run_navigation_loop_def init)
  moreover from t fin
  have "(finish s \<and> cellX s = xend cfg \<and> cellY s = yend cfg) \<or> unachievable s"
    by (auto simp: terminal_def)
  ultimately show ?thesis using init it by blast
qed

theorem navigation_terminates_witness:
  "valid_config dead_end_map
   \<and> init_state dead_end_map = Inr dead_end_start
   \<and> run_navigation_loop dead_end_map = Inr dead_end_step3
   \<and> ((finish dead_end_step3 \<and> cellX dead_end_step3 = xend dead_end_map
          \<and> cellY dead_end_step3 = yend dead_end_map)
        \<or> unachievable dead_end_step3)
   \<and> unachievable dead_end_step3
   \<and> iterationsRepeated dead_end_step3 = 4"
proof -
  from navigation_terminates[OF dead_end_map_valid] obtain s where
    "run_navigation_loop dead_end_map = Inr s"
    and "(finish s \<and> cellX s = xend dead_end_map \<and> cellY s = yend dead_end_map)
         \<or> unachievable s"
    by blast
  with dead_end_map_run
  have "(finish dead_end_step3 \<and> cellX dead_end_step3 = xend dead_end_map
          \<and> cellY dead_end_step3 = yend dead_end_map)
        \<or> unachievable dead_end_step3"
    by simp
  with dead_end_map_valid dead_end_init dead_end_map_run show ?thesis
    by (simp add: dead_end_step3_def)
qed

text \<open>
  C5. Once \<open>backtracking\<close> is true it stays true for the rest of the run; from then on
  the scan classifies no neighbour as free, so no later iteration takes the forward
  branch: it ends the run or pops the path.
\<close>

theorem backtracking_is_permanent:
  assumes "backtracking s" and "nav_iter n cfg s = Inr s'"
  shows "backtracking s'
       \<and> filter (is_free cfg s') (scan_order cfg s') = []
       \<and> (\<forall>fc oc m. scan_neighbours cfg s' = Inr (fc, oc, m) \<longrightarrow> fc = [])
       \<and> (\<forall>s''. nav_step cfg s' = Inr s'' \<longrightarrow>
             backtracking s''
             \<and> ((unachievable s'' \<and> robotPath s'' = robotPath s')
                \<or> (1 < length (robotPath s')
                    \<and> robotPath s'' = butlast (robotPath s') @ [last (butlast (robotPath s'))])))"
proof -
  have bt: "backtracking s'"
    by (rule nav_iter_invariant[where P = backtracking, OF assms(1) _ assms(2)])
       (rule nav_step_backtracking)
  then have nofree: "filter (is_free cfg s') (scan_order cfg s') = []"
    by (simp add: is_free_def)
  have noscan: "\<forall>fc oc m. scan_neighbours cfg s' = Inr (fc, oc, m) \<longrightarrow> fc = []"
    using scan_neighbours_free[of cfg s'] nofree by auto
  have "\<forall>s''. nav_step cfg s' = Inr s'' \<longrightarrow>
             backtracking s''
             \<and> ((unachievable s'' \<and> robotPath s'' = robotPath s')
                \<or> (1 < length (robotPath s')
                    \<and> robotPath s'' = butlast (robotPath s') @ [last (butlast (robotPath s'))]))"
  proof (intro allI impI)
    fix s''
    assume step: "nav_step cfg s' = Inr s''"
    then obtain fc oc m where sc: "scan_neighbours cfg s' = Inr (fc, oc, m)"
      by (rule nav_step_scan)
    with noscan have "scan_neighbours cfg s' = Inr ([], oc, m)" by auto
    from nav_step_dead_end[OF this step refl] nav_step_backtracking[OF step bt]
    show "backtracking s''
             \<and> ((unachievable s'' \<and> robotPath s'' = robotPath s')
                \<or> (1 < length (robotPath s')
                    \<and> robotPath s'' = butlast (robotPath s') @ [last (butlast (robotPath s'))]))"
      by (auto simp: linear_index_of_cell)
  qed
  with bt nofree noscan show ?thesis by blast
qed

theorem backtracking_is_permanent_witness:
  "backtracking dead_end_step2
   \<and> nav_iter 1 dead_end_map dead_end_step2 = Inr dead_end_step3
   \<and> backtracking dead_end_step3
   \<and> unachievable dead_end_step3
   \<and> filter (is_free dead_end_map dead_end_step3) (scan_order dead_end_map dead_end_step3) = []"
proof -
  have bt: "backtracking dead_end_step2" by (simp add: dead_end_step2_def)
  from backtracking_is_permanent[OF bt dead_end_last_step] bt dead_end_last_step
  show ?thesis by (simp add: dead_end_step3_def)
qed

text \<open>
  C6. In a run whose start cell is not an obstacle, \<open>robotPath\<close> never holds a linear
  index of the obstacle set: not the first entry, not an entry pushed by a forward move,
  not an entry pushed again after a backtracking pop.
\<close>

theorem path_avoids_obstacles:
  assumes "init_state cfg = Inr s0"
    and "linear_index cfg (xinit cfg) (yinit cfg) \<notin> set (obstacles cfg)"
    and "nav_iter n cfg s0 = Inr s"
  shows "set (robotPath s) \<inter> set (obstacles cfg) = {}"
  using assms by (rule robotPath_obstacle_free)

theorem path_avoids_obstacles_witness:
  "init_state experiment1 = Inr experiment1_start
   \<and> linear_index experiment1 (xinit experiment1) (yinit experiment1) = 3
   \<and> obstacles experiment1 = [11]
   \<and> nav_iter 5 experiment1 experiment1_start = Inr experiment1_final
   \<and> robotPath experiment1_final = [3, 7, 6, 10, 14, 13]
   \<and> set (robotPath experiment1_final) \<inter> set (obstacles experiment1) = {}"
proof -
  have start: "linear_index experiment1 (xinit experiment1) (yinit experiment1) = 3"
    and obs: "obstacles experiment1 = [11]"
    by (simp_all add: experiment1_def linear_index_def)
  have free: "linear_index experiment1 (xinit experiment1) (yinit experiment1)
                \<notin> set (obstacles experiment1)"
    by (simp add: start obs)
  from path_avoids_obstacles[OF experiment1_init free experiment1_five_steps]
    experiment1_init experiment1_five_steps start obs
  show ?thesis by (simp add: experiment1_final_def)
qed

text \<open>
  C7, as the code has it. The claim: every command is one of 0, 1, 2, 3 and equals
  \<open>direction_from_cells\<close> of the step's consecutive pair of recorded path cells, and the
  Non-adjacent error is unreachable. On a valid configuration every iteration of a run
  either leaves the loop at a dead end without a command, or emits a command that is one
  of 0, 1, 2, 3 and equals \<open>direction_from_cells\<close> of the cell left and the cell entered,
  which are neighbours: \<open>direction_from_cells\<close> never raises. After a forward step the
  cell left and the cell entered are the last two entries of \<open>robotPath\<close>.
\<close>

theorem commands_follow_moves:
  assumes "valid_config cfg"
    and "init_state cfg = Inr s0"
    and "nav_iter n cfg s0 = Inr s"
    and "\<not> terminal s"
  shows "\<exists>s'. nav_step cfg s = Inr s'
     \<and> ((unachievable s' \<and> commands s' = commands s \<and> dead_end cfg s)
        \<or> (\<exists>c. c \<in> {0, 1, 2, 3}
              \<and> commands s' = commands s @ [c]
              \<and> (lastCellX s', lastCellY s') = (cellX s, cellY s)
              \<and> direction_from_cells (cellX s, cellY s) (cellX s', cellY s') = Inr c
              \<and> adjacent (cellX s, cellY s) (cellX s', cellY s')
              \<and> (\<not> dead_end cfg s \<longrightarrow>
                    robotPath s' = robotPath s @ [linear_index cfg (cellX s') (cellY s')]
                    \<and> cell_of_index cfg (last (butlast (robotPath s'))) = (cellX s, cellY s)
                    \<and> cell_of_index cfg (last (robotPath s')) = (cellX s', cellY s')
                    \<and> direction_from_cells
                          (cell_of_index cfg (last (butlast (robotPath s'))))
                          (cell_of_index cfg (last (robotPath s'))) = Inr c)))"
proof -
  have inv: "nav_inv cfg s"
    using assms(1,2,3) by (rule nav_iter_reaches_inv)
  from nav_step_inv[OF inv assms(4)] obtain s' where
    step: "nav_step cfg s = Inr s'" and inv': "nav_inv cfg s'" by blast
  from step obtain fc oc m where sc: "scan_neighbours cfg s = Inr (fc, oc, m)"
    by (rule nav_step_scan)
  have here: "cell_of_index cfg (last (robotPath s)) = (cellX s, cellY s)"
    using inv by (simp add: nav_inv_def in_bounds_def cell_of_linear_index)
  have there: "cell_of_index cfg (last (robotPath s')) = (cellX s', cellY s')"
    using inv' by (simp add: nav_inv_def in_bounds_def cell_of_linear_index)
  have "(unachievable s' \<and> commands s' = commands s \<and> dead_end cfg s)
        \<or> (\<exists>c. c \<in> {0, 1, 2, 3}
              \<and> commands s' = commands s @ [c]
              \<and> (lastCellX s', lastCellY s') = (cellX s, cellY s)
              \<and> direction_from_cells (cellX s, cellY s) (cellX s', cellY s') = Inr c
              \<and> adjacent (cellX s, cellY s) (cellX s', cellY s')
              \<and> (\<not> dead_end cfg s \<longrightarrow>
                    robotPath s' = robotPath s @ [linear_index cfg (cellX s') (cellY s')]
                    \<and> cell_of_index cfg (last (butlast (robotPath s'))) = (cellX s, cellY s)
                    \<and> cell_of_index cfg (last (robotPath s')) = (cellX s', cellY s')
                    \<and> direction_from_cells
                          (cell_of_index cfg (last (butlast (robotPath s'))))
                          (cell_of_index cfg (last (robotPath s'))) = Inr c))"
  proof (cases "fc = []")
    case False
    let ?t = "last (manhattan_nearest_cell_to_target (xend cfg, yend cfg) fc)"
    from nav_step_forward[OF sc False step refl] obtain c where
      cell: "(cellX s', cellY s') = ?t"
      and prev: "(lastCellX s', lastCellY s') = (cellX s, cellY s)"
      and path: "robotPath s' = robotPath s @ [linear_index cfg (cellX s') (cellY s')]"
      and dir: "direction_from_cells (cellX s, cellY s) ?t = Inr c"
      and cmd: "commands s' = commands s @ [c]"
      by auto
    from dir cell have dir': "direction_from_cells (cellX s, cellY s) (cellX s', cellY s') = Inr c"
      by simp
    from path have below: "last (butlast (robotPath s')) = last (robotPath s)"
      by simp
    from direction_codes[OF dir'] direction_Inr_adjacent[OF dir'] cmd prev dir' path
      below here there
    show ?thesis by simp
  next
    case True
    then have de: "dead_end cfg s" by (simp add: dead_end_def sc)
    from True sc have sc': "scan_neighbours cfg s = Inr ([], oc, m)" by simp
    let ?t = "cell_of_index cfg (last (butlast (robotPath s)))"
    from nav_step_dead_end[OF sc' step refl]
    consider (halt) "unachievable s'" and "commands s' = commands s"
      | (retreat) c where "cellX s' = fst ?t" and "cellY s' = snd ?t"
        and "lastCellX s' = cellX s" and "lastCellY s' = cellY s"
        and "direction_from_cells (cellX s, cellY s) ?t = Inr c"
        and "commands s' = commands s @ [c]"
      by blast
    then show ?thesis
    proof cases
      case halt
      with de show ?thesis by simp
    next
      case retreat
      from retreat(1,2,5)
      have dir': "direction_from_cells (cellX s, cellY s) (cellX s', cellY s') = Inr c"
        by simp
      from direction_codes[OF dir'] direction_Inr_adjacent[OF dir'] retreat(3,4,6) dir' de
      show ?thesis by simp
    qed
  qed
  with step show ?thesis by blast
qed

text \<open>
  The backtracking step of the 3x2 map: from (0, 1) back to (0, 0) with command 0 (up).
\<close>

theorem commands_follow_moves_witness:
  "valid_config dead_end_map
   \<and> init_state dead_end_map = Inr dead_end_start
   \<and> nav_iter 1 dead_end_map dead_end_start = Inr dead_end_step1
   \<and> \<not> terminal dead_end_step1
   \<and> nav_step dead_end_map dead_end_step1 = Inr dead_end_step2
   \<and> commands dead_end_step2 = commands dead_end_step1 @ [0]
   \<and> direction_from_cells (cellX dead_end_step1, cellY dead_end_step1)
        (cellX dead_end_step2, cellY dead_end_step2) = Inr 0
   \<and> adjacent (cellX dead_end_step1, cellY dead_end_step1)
        (cellX dead_end_step2, cellY dead_end_step2)"
proof -
  have nt: "\<not> terminal dead_end_step1"
    by (simp add: terminal_def dead_end_step1_def)
  from commands_follow_moves[OF dead_end_map_valid dead_end_init dead_end_one_step nt]
  obtain s' where step: "nav_step dead_end_map dead_end_step1 = Inr s'"
    and alt: "(unachievable s' \<and> commands s' = commands dead_end_step1)
        \<or> (\<exists>c. commands s' = commands dead_end_step1 @ [c]
              \<and> direction_from_cells (cellX dead_end_step1, cellY dead_end_step1)
                    (cellX s', cellY s') = Inr c
              \<and> adjacent (cellX dead_end_step1, cellY dead_end_step1) (cellX s', cellY s'))"
    by blast
  from step dead_end_second_step have s': "s' = dead_end_step2" by simp
  have "\<not> unachievable dead_end_step2"
    and cmd: "commands dead_end_step2 = commands dead_end_step1 @ [0]"
    by (simp_all add: dead_end_step2_def dead_end_step1_def)
  with alt s' have "direction_from_cells (cellX dead_end_step1, cellY dead_end_step1)
        (cellX dead_end_step2, cellY dead_end_step2) = Inr 0
      \<and> adjacent (cellX dead_end_step1, cellY dead_end_step1)
        (cellX dead_end_step2, cellY dead_end_step2)"
    by auto
  with dead_end_map_valid dead_end_init dead_end_one_step nt dead_end_second_step cmd
  show ?thesis by simp
qed

text \<open>
  Where the claim fails. In that same step line 310 pops the cell being left before line
  322 appends the cell entered: the recorded path is [1, 1], its consecutive pair is
  ((0, 0), (0, 0)), and \<open>direction_from_cells\<close> raises on it, while the command is 0.
\<close>

theorem recorded_path_direction_counterexample:
  "init_state dead_end_map = Inr dead_end_start
   \<and> nav_iter 1 dead_end_map dead_end_start = Inr dead_end_step1
   \<and> nav_step dead_end_map dead_end_step1 = Inr dead_end_step2
   \<and> commands dead_end_step2 = commands dead_end_step1 @ [0]
   \<and> robotPath dead_end_step1 = [1, 4]
   \<and> robotPath dead_end_step2 = [1, 1]
   \<and> cell_of_index dead_end_map (robotPath dead_end_step2 ! 0) = (0, 0)
   \<and> cell_of_index dead_end_map (robotPath dead_end_step2 ! 1) = (0, 0)
   \<and> direction_from_cells (cell_of_index dead_end_map (robotPath dead_end_step2 ! 0))
        (cell_of_index dead_end_map (robotPath dead_end_step2 ! 1)) = Inl ValueError
   \<and> (cellX dead_end_step1, cellY dead_end_step1) = (0, 1)
   \<and> (cellX dead_end_step2, cellY dead_end_step2) = (0, 0)
   \<and> direction_from_cells (0, 1) (0, 0) = Inr 0"
  using dead_end_init dead_end_one_step dead_end_second_step
  by (simp add: dead_end_step1_def dead_end_step2_def dead_end_map_def cell_of_index_def
        direction_from_cells_def)

text \<open>
  C8. On the 4x4 map with start (2, 0), end (0, 3) and the obstacle with linear index 11,
  which is the cell (2, 2), the run reaches Finished, the path never holds the cell
  (2, 2), and the number of commands is the length of the path minus one.
\<close>

theorem experiment1_reaches_target:
  "run_navigation_loop experiment1 = Inr experiment1_final
   \<and> finish experiment1_final \<and> \<not> unachievable experiment1_final
   \<and> cellX experiment1_final = xend experiment1 \<and> cellY experiment1_final = yend experiment1
   \<and> obstacles experiment1 = [linear_index experiment1 2 2]
   \<and> robotPath experiment1_final = [3, 7, 6, 10, 14, 13]
   \<and> (\<forall>n. \<exists>s. run_steps n experiment1 = Inr s
             \<and> linear_index experiment1 2 2 \<notin> set (robotPath s))
   \<and> commands experiment1_final = [3, 1, 3, 3, 1]
   \<and> length (commands experiment1_final) = length (robotPath experiment1_final) - 1"
proof -
  have fin: "terminal experiment1_final"
    by (simp add: terminal_def experiment1_final_def)
  have run: "run_navigation_loop experiment1 = Inr experiment1_final"
    using nav_loop_of_iter[OF experiment1_five_steps fin]
    by (simp add: run_navigation_loop_def experiment1_init)
  have obs: "obstacles experiment1 = [linear_index experiment1 2 2]"
    by (simp add: experiment1_def linear_index_def)
  have start: "linear_index experiment1 (xinit experiment1) (yinit experiment1)
                 \<notin> set (obstacles experiment1)"
    by (simp add: experiment1_def linear_index_def)
  have never: "\<exists>s. run_steps n experiment1 = Inr s
             \<and> linear_index experiment1 2 2 \<notin> set (robotPath s)" for n
  proof -
    have ex: "\<exists>s. nav_iter n experiment1 experiment1_start = Inr s"
    proof (cases "n < 5")
      case True
      then consider "n = 0" | "n = 1" | "n = 2" | "n = 3" | "n = 4" by linarith
      then show ?thesis
        by cases
          (simp_all add: experiment1_def experiment1_start_def nav_eval eval_nat_numeral)
    next
      case False
      then have "n = 5 + (n - 5)" by simp
      with nav_iter_stable[OF experiment1_five_steps fin, of "n - 5"] show ?thesis
        by metis
    qed
    then obtain s where s: "nav_iter n experiment1 experiment1_start = Inr s" ..
    from robotPath_obstacle_free[OF experiment1_init start s]
    have "linear_index experiment1 2 2 \<notin> set (robotPath s)"
      by (simp add: obs)
    with s show ?thesis
      by (simp add: run_steps_def experiment1_init)
  qed
  from run obs never show ?thesis
    by (simp add: experiment1_final_def experiment1_def)
qed

text \<open>
  C9. The two cell representations round-trip: for every in-bounds cell \<open>(x, y)\<close>, decoding
  the linear index \<open>y * width + x + 1\<close> with \<open>((id - 1) % width, (id - 1) // width)\<close>, as the
  backtracking branch does, gives \<open>(x, y)\<close> back.
\<close>

theorem linear_index_roundtrip:
  assumes "in_bounds cfg x y"
  shows "cell_of_index cfg (linear_index cfg x y) = (x, y)"
  using assms by (simp add: in_bounds_def cell_of_linear_index)

theorem linear_index_roundtrip_witness:
  "in_bounds experiment1 2 2
   \<and> linear_index experiment1 2 2 = 11
   \<and> cell_of_index experiment1 (linear_index experiment1 2 2) = (2, 2)"
proof -
  have b: "in_bounds experiment1 2 2"
    by (simp add: in_bounds_def experiment1_def)
  have "linear_index experiment1 2 2 = 11"
    by (simp add: linear_index_def experiment1_def)
  with b linear_index_roundtrip[OF b] show ?thesis by simp
qed

text \<open>
  C10. At every iteration boundary \<open>robotPath\<close> is not empty and its last element is the
  linear index of the current cell \<open>(cellX, cellY)\<close>.
\<close>

theorem path_ends_at_current_cell:
  assumes "init_state cfg = Inr s0" and "nav_iter n cfg s0 = Inr s"
  shows "robotPath s \<noteq> [] \<and> last (robotPath s) = linear_index cfg (cellX s) (cellY s)"
proof (rule nav_iter_invariant[where P = "\<lambda>s. robotPath s \<noteq> []
          \<and> last (robotPath s) = linear_index cfg (cellX s) (cellY s)", OF _ _ assms(2)])
  show "robotPath s0 \<noteq> [] \<and> last (robotPath s0) = linear_index cfg (cellX s0) (cellY s0)"
    using init_state_path[OF assms(1)] by simp
next
  fix s s'
  assume "robotPath s \<noteq> [] \<and> last (robotPath s) = linear_index cfg (cellX s) (cellY s)"
    and "nav_step cfg s = Inr s'"
  then show "robotPath s' \<noteq> [] \<and> last (robotPath s') = linear_index cfg (cellX s') (cellY s')"
    using nav_step_path[of cfg s s'] by auto
qed

theorem path_ends_at_current_cell_witness:
  "init_state dead_end_map = Inr dead_end_start
   \<and> nav_iter 2 dead_end_map dead_end_start = Inr dead_end_step2
   \<and> robotPath dead_end_step2 = [1, 1]
   \<and> last (robotPath dead_end_step2)
       = linear_index dead_end_map (cellX dead_end_step2) (cellY dead_end_step2)"
  using path_ends_at_current_cell[OF dead_end_init dead_end_two_steps]
    dead_end_init dead_end_two_steps
  by (simp add: dead_end_step2_def)

end
